theory Spec2Isabelle
  imports Main "HOL-Library.Sublist" "HOL-Library.Char_ord" "HOL-Library.List_Lexorder"
begin

section \<open>Characters and character classes\<close>

text \<open>
  The text handled by \<^verbatim>\<open>ar4.py\<close> is a Python \<^verbatim>\<open>str\<close>. It is modelled as a
  \<^typ>\<open>string\<close> whose characters are read as the code points 0..255; code points
  above 255 are outside the model. On this range the classes of Python's \<^verbatim>\<open>re\<close>
  module (for \<^verbatim>\<open>str\<close> patterns) and of \<^verbatim>\<open>str.isspace\<close> are the following.
\<close>

definition code :: "char \<Rightarrow> nat" where
  "code c = of_char c"

definition is_digit :: "char \<Rightarrow> bool" where
  \<comment> \<open>\<^verbatim>\<open>\d\<close>\<close>
  "is_digit c = (48 \<le> code c \<and> code c \<le> 57)"

definition is_upper :: "char \<Rightarrow> bool" where
  \<comment> \<open>\<^verbatim>\<open>[A-Z]\<close>\<close>
  "is_upper c = (65 \<le> code c \<and> code c \<le> 90)"

definition is_lower :: "char \<Rightarrow> bool" where
  \<comment> \<open>\<^verbatim>\<open>[a-z]\<close>\<close>
  "is_lower c = (97 \<le> code c \<and> code c \<le> 122)"

definition is_space :: "char \<Rightarrow> bool" where
  \<comment> \<open>\<^verbatim>\<open>\s\<close> and \<^verbatim>\<open>str.isspace\<close>: tab, LF, VT, FF, CR, FS, GS, RS, US, space, NEL, NBSP\<close>
  "is_space c = ((9 \<le> code c \<and> code c \<le> 13) \<or> (28 \<le> code c \<and> code c \<le> 32)
                 \<or> code c = 133 \<or> code c = 160)"

definition is_word :: "char \<Rightarrow> bool" where
  \<comment> \<open>\<^verbatim>\<open>\w\<close>: alphanumeric (\<^verbatim>\<open>str.isalnum\<close>) or underscore\<close>
  "is_word c = (is_digit c \<or> is_upper c \<or> is_lower c \<or> code c = 95
                \<or> code c \<in> {170, 178, 179, 181, 185, 186, 188, 189, 190}
                \<or> (192 \<le> code c \<and> code c \<le> 214)
                \<or> (216 \<le> code c \<and> code c \<le> 246)
                \<or> 248 \<le> code c)"

section \<open>A backtracking matcher for the patterns of the program\<close>

text \<open>
  The patterns are kept as syntax trees and run by one matcher, which lists the ways a
  pattern can match at a position in the order in which Python's backtracking engine
  tries them; the engine's answer is the head of the list.
\<close>

datatype regex =
    Lit string                          \<comment> \<open>a literal text\<close>
  | Cls "char \<Rightarrow> bool"                  \<comment> \<open>one character of a class\<close>
  | Seq regex regex                     \<comment> \<open>concatenation\<close>
  | Rep regex nat "nat option" bool     \<comment> \<open>repetition: minimum, maximum, greedy\<close>
  | WordB                               \<comment> \<open>\<^verbatim>\<open>\b\<close>\<close>
  | Look regex                          \<comment> \<open>\<^verbatim>\<open>(?=...)\<close>\<close>
  | Grp regex                           \<comment> \<open>a capturing group\<close>

text \<open>A way to match: the text matched, the text left, and the captured groups.\<close>

type_synonym mres = "string \<times> string \<times> string list"

definition last_char :: "char option \<Rightarrow> string \<Rightarrow> char option" where
  \<comment> \<open>the character before the position reached after reading \<open>m\<close>\<close>
  "last_char p m = (if m = [] then p else Some (last m))"

definition word_opt :: "char option \<Rightarrow> bool" where
  "word_opt p = (case p of None \<Rightarrow> False | Some c \<Rightarrow> is_word c)"

definition next_char :: "string \<Rightarrow> char option" where
  "next_char s = (case s of [] \<Rightarrow> None | c # _ \<Rightarrow> Some c)"

definition dec :: "nat option \<Rightarrow> nat option" where
  "dec hi = map_option (\<lambda>h. h - 1) hi"

definition then_match :: "(char option \<Rightarrow> string \<Rightarrow> mres list) \<Rightarrow> char option \<Rightarrow> mres \<Rightarrow> mres list" where
  \<comment> \<open>continue a match \<open>x\<close> with the matcher \<open>g\<close>\<close>
  "then_match g p x =
     (case x of (m, rest, cs) \<Rightarrow>
        map (\<lambda>y. case y of (m', rest', cs') \<Rightarrow> (m @ m', rest', cs @ cs')) (g (last_char p m) rest))"

text \<open>
  Repetition. Every repeated sub-pattern of the program reads at least one character in
  each round, so a round that reads nothing is not counted, and the number of rounds is
  bounded by the length of the text: the first argument is that bound.
\<close>

fun rep :: "nat \<Rightarrow> (char option \<Rightarrow> string \<Rightarrow> mres list) \<Rightarrow> bool \<Rightarrow> nat \<Rightarrow> nat option
            \<Rightarrow> char option \<Rightarrow> string \<Rightarrow> mres list" where
  "rep 0 f greedy lo hi p s = (if lo = 0 then [([], s, [])] else [])"
| "rep (Suc n) f greedy lo hi p s =
     (let more = (if hi = Some 0 then []
                  else concat (map (then_match (rep n f greedy (lo - 1) (dec hi)) p)
                                   (filter (\<lambda>x. fst x \<noteq> []) (f p s))));
          stop = (if lo = 0 then [([], s, [])] else [])
      in if greedy then more @ stop else stop @ more)"

fun matches :: "regex \<Rightarrow> char option \<Rightarrow> string \<Rightarrow> mres list" where
  "matches (Lit l) p s = (if prefix l s then [(l, drop (length l) s, [])] else [])"
| "matches (Cls P) p s = (case s of [] \<Rightarrow> [] | c # s' \<Rightarrow> if P c then [([c], s', [])] else [])"
| "matches (Seq a b) p s = concat (map (then_match (matches b) p) (matches a p s))"
| "matches (Rep r lo hi greedy) p s = rep (length s) (matches r) greedy lo hi p s"
| "matches WordB p s = (if word_opt p \<noteq> word_opt (next_char s) then [([], s, [])] else [])"
| "matches (Look r) p s =
     (case matches r p s of [] \<Rightarrow> [] | (m, rest, cs) # _ \<Rightarrow> [([], s, cs)])"
| "matches (Grp r) p s = map (\<lambda>x. case x of (m, rest, cs) \<Rightarrow> (m, rest, m # cs)) (matches r p s)"

text \<open>
  \<^verbatim>\<open>search\<close>: the leftmost position at which the pattern matches, with the text
  before it. With \<open>adv\<close> (the engine's \<^verbatim>\<open>must_advance\<close>) an empty match at the
  first position is refused.
\<close>

type_synonym found = "string \<times> string \<times> string \<times> string list"

fun search :: "regex \<Rightarrow> bool \<Rightarrow> char option \<Rightarrow> string \<Rightarrow> found option" where
  "search r adv p [] =
     (case (if adv then filter (\<lambda>x. fst x \<noteq> []) (matches r p []) else matches r p []) of
        (m, rest, cs) # _ \<Rightarrow> Some ([], m, rest, cs)
      | [] \<Rightarrow> None)"
| "search r adv p (c # s) =
     (case (if adv then filter (\<lambda>x. fst x \<noteq> []) (matches r p (c # s)) else matches r p (c # s)) of
        (m, rest, cs) # _ \<Rightarrow> Some ([], m, rest, cs)
      | [] \<Rightarrow> (case search r False (Some c) s of
                 None \<Rightarrow> None
               | Some (pre, m, rest, cs) \<Rightarrow> Some (c # pre, m, rest, cs)))"

lemma rep_sound:
  assumes "\<And>p s m rest cs. (m, rest, cs) \<in> set (f p s) \<Longrightarrow> s = m @ rest"
  shows "(m, rest, cs) \<in> set (rep n f greedy lo hi p s) \<Longrightarrow> s = m @ rest"
proof (induction n arbitrary: lo hi p s m rest cs)
  case 0
  then show ?case by (simp split: if_splits)
next
  case (Suc n)
  from Suc.prems consider
      (stop) "m = []" "rest = s"
    | (more) x where "x \<in> set (f p s)"
        "(m, rest, cs) \<in> set (then_match (rep n f greedy (lo - 1) (dec hi)) p x)"
    by (auto simp: Let_def split: if_splits)
  then show ?case
  proof cases
    case stop
    then show ?thesis by simp
  next
    case more
    obtain m1 r1 c1 where x: "x = (m1, r1, c1)" by (cases x)
    from more(2) x obtain m2 c2 where
      y: "(m2, rest, c2) \<in> set (rep n f greedy (lo - 1) (dec hi) (last_char p m1) r1)"
      and m: "m = m1 @ m2"
      by (auto simp: then_match_def)
    from more(1) x have "s = m1 @ r1" using assms by blast
    moreover from Suc.IH [OF y] have "r1 = m2 @ rest" .
    ultimately show ?thesis using m by simp
  qed
qed

lemma matches_sound: "(m, rest, cs) \<in> set (matches r p s) \<Longrightarrow> s = m @ rest"
proof (induction r arbitrary: p s m rest cs)
  case (Lit l)
  then show ?case by (auto simp: prefix_def split: if_splits)
next
  case (Cls P)
  then show ?case by (auto split: list.splits if_splits)
next
  case (Seq a b)
  then show ?case by (fastforce simp: then_match_def)
next
  case (Rep r lo hi greedy)
  show ?case
    using rep_sound [of "matches r"] Rep.IH Rep.prems by (simp del: rep.simps)
next
  case WordB
  then show ?case by (auto split: if_splits)
next
  case (Look r)
  then show ?case by (auto split: list.splits)
next
  case (Grp r)
  then show ?case by auto
qed

lemma search_sound:
  "search r adv p s = Some (pre, m, rest, cs) \<Longrightarrow>
     s = pre @ m @ rest \<and> (adv \<and> pre = [] \<longrightarrow> m \<noteq> [])"
proof (induction s arbitrary: adv p pre)
  case Nil
  let ?xs = "if adv then filter (\<lambda>x. fst x \<noteq> []) (matches r p []) else matches r p []"
  from Nil obtain ys where xs: "?xs = (m, rest, cs) # ys" and pre: "pre = []"
    by (auto split: list.splits)
  then have mem: "(m, rest, cs) \<in> set ?xs" by simp
  then have "(m, rest, cs) \<in> set (matches r p [])" by (auto split: if_splits)
  then have "[] = m @ rest" by (rule matches_sound)
  moreover from mem have "adv \<longrightarrow> m \<noteq> []" by (auto split: if_splits)
  ultimately show ?case using pre by simp
next
  case (Cons c s)
  let ?xs = "if adv then filter (\<lambda>x. fst x \<noteq> []) (matches r p (c # s)) else matches r p (c # s)"
  show ?case
  proof (cases ?xs)
    case Nil
    with Cons.prems obtain pre' where
      rec: "search r False (Some c) s = Some (pre', m, rest, cs)" and pre: "pre = c # pre'"
      by (auto split: option.splits)
    from Cons.IH [OF rec] pre show ?thesis by simp
  next
    case (Cons x ys)
    with Cons.prems have x: "x = (m, rest, cs)" and pre: "pre = []"
      by (auto split: prod.splits)
    with Cons have mem: "(m, rest, cs) \<in> set ?xs" by simp
    then have "(m, rest, cs) \<in> set (matches r p (c # s))" by (auto split: if_splits)
    then have "c # s = m @ rest" by (rule matches_sound)
    moreover from mem have "adv \<longrightarrow> m \<noteq> []" by (auto split: if_splits)
    ultimately show ?thesis using pre by simp
  qed
qed

text \<open>
  The scan shared by \<^verbatim>\<open>findall\<close> and \<^verbatim>\<open>split\<close>: the successive matches from left
  to right, each with the text skipped before it, and the text left after the last
  match. After an empty match the next one must advance.
\<close>

function scan :: "regex \<Rightarrow> bool \<Rightarrow> char option \<Rightarrow> string \<Rightarrow> (string \<times> string) list \<times> string" where
  "scan r adv p s =
     (case search r adv p s of
        None \<Rightarrow> ([], s)
      | Some (pre, m, rest, cs) \<Rightarrow>
          (case scan r (m = []) (last_char p (pre @ m)) rest of
             (items, end) \<Rightarrow> ((pre, m) # items, end)))"
  by pat_completeness auto
termination
proof (relation "measure (\<lambda>(r, adv, p, s). 2 * length s + (if adv then 0 else 1))", goal_cases)
  case 1
  show ?case by simp
next
  case (2 r adv p s x pre y m z rest cs)
  then have "search r adv p s = Some (pre, m, rest, cs)" by simp
  from search_sound [OF this] show ?case by (cases m; cases pre; cases adv) auto
qed

declare scan.simps [simp del]

definition re_search :: "regex \<Rightarrow> string \<Rightarrow> found option" where
  \<comment> \<open>\<^verbatim>\<open>pattern.search(string)\<close>\<close>
  "re_search r s = search r False None s"


definition findall :: "regex \<Rightarrow> string \<Rightarrow> string list" where
  \<comment> \<open>\<^verbatim>\<open>re.findall(pattern, string)\<close>, for a pattern without capturing groups\<close>
  "findall r s = map snd (fst (scan r False None s))"

definition re_split :: "regex \<Rightarrow> string \<Rightarrow> string list" where
  \<comment> \<open>\<^verbatim>\<open>re.split(pattern, string)\<close>, for a pattern without capturing groups\<close>
  "re_split r s = (case scan r False None s of (items, end) \<Rightarrow> map fst items @ [end])"


section \<open>The string operations used by the program\<close>

definition strip :: "string \<Rightarrow> string" where
  \<comment> \<open>\<^verbatim>\<open>str.strip()\<close>\<close>
  "strip s = rev (dropWhile is_space (rev (dropWhile is_space s)))"

fun split_ws_from :: "string \<Rightarrow> string \<Rightarrow> string list" where
  "split_ws_from w [] = (if w = [] then [] else [w])"
| "split_ws_from w (c # s) =
     (if is_space c then (if w = [] then [] else [w]) @ split_ws_from [] s
      else split_ws_from (w @ [c]) s)"

definition split_ws :: "string \<Rightarrow> string list" where
  \<comment> \<open>\<^verbatim>\<open>str.split()\<close>: the maximal runs of characters that are not whitespace\<close>
  "split_ws s = split_ws_from [] s"

text \<open>
  \<^verbatim>\<open>str.title()\<close> and \<^verbatim>\<open>str.upper()\<close> are only applied to texts that the patterns
  below have matched, whose letters are all in A-Z and a-z; the case mapping is the one
  of these letters.
\<close>

definition to_lower :: "char \<Rightarrow> char" where
  "to_lower c = (if is_upper c then char_of (code c + 32) else c)"

definition to_upper :: "char \<Rightarrow> char" where
  "to_upper c = (if is_lower c then char_of (code c - 32) else c)"

definition is_cased :: "char \<Rightarrow> bool" where
  "is_cased c = (is_upper c \<or> is_lower c)"

fun title_from :: "bool \<Rightarrow> string \<Rightarrow> string" where
  "title_from prev_cased [] = []"
| "title_from prev_cased (c # s) =
     (if prev_cased then to_lower c else to_upper c) # title_from (is_cased c) s"

definition title :: "string \<Rightarrow> string" where
  \<comment> \<open>\<^verbatim>\<open>str.title()\<close>: a letter after a letter is lowered, any other letter is raised\<close>
  "title s = title_from False s"

definition upper :: "string \<Rightarrow> string" where
  \<comment> \<open>\<^verbatim>\<open>str.upper()\<close>\<close>
  "upper s = map to_upper s"

fun max_len_from :: "string \<Rightarrow> string list \<Rightarrow> string" where
  "max_len_from best [] = best"
| "max_len_from best (x # xs) = max_len_from (if length best < length x then x else best) xs"

definition max_len :: "string list \<Rightarrow> string option" where
  \<comment> \<open>\<^verbatim>\<open>max(xs, key=len)\<close>; \<open>None\<close> stands for the ValueError on an empty list\<close>
  "max_len xs = (case xs of [] \<Rightarrow> None | x # xs' \<Rightarrow> Some (max_len_from x xs'))"

fun join :: "string \<Rightarrow> string list \<Rightarrow> string" where
  \<comment> \<open>\<^verbatim>\<open>sep.join(xs)\<close>\<close>
  "join sep [] = []"
| "join sep [x] = x"
| "join sep (x # y # ys) = x @ sep @ join sep (y # ys)"

section \<open>The patterns\<close>

abbreviation star :: "regex \<Rightarrow> regex" where
  "star r \<equiv> Rep r 0 None True"

abbreviation plus :: "regex \<Rightarrow> regex" where
  "plus r \<equiv> Rep r 1 None True"

abbreviation opt :: "regex \<Rightarrow> regex" where
  "opt r \<equiv> Rep r 0 (Some 1) True"

abbreviation times :: "nat \<Rightarrow> regex \<Rightarrow> regex" where
  "times n r \<equiv> Rep r n (Some n) True"

definition split_pattern :: regex where
  \<comment> \<open>\<^verbatim>\<open>(?=Account:\s*\d{4})\<close>\<close>
  "split_pattern = Look (Seq (Lit ''Account:'') (Seq (star (Cls is_space)) (times 4 (Cls is_digit))))"

definition account_pattern :: regex where
  \<comment> \<open>\<^verbatim>\<open>Account:\s*(\d{4,5})\<close>\<close>
  "account_pattern =
     Seq (Lit ''Account:'') (Seq (star (Cls is_space)) (Grp (Rep (Cls is_digit) 4 (Some 5) True)))"

definition date_pattern :: regex where
  \<comment> \<open>\<^verbatim>\<open>\b\d{2}/\d{2}/\d{4}\b\<close>\<close>
  "date_pattern =
     Seq WordB (Seq (times 2 (Cls is_digit)) (Seq (Lit ''/'') (Seq (times 2 (Cls is_digit))
       (Seq (Lit ''/'') (Seq (times 4 (Cls is_digit)) WordB)))))"

definition is_modifier :: "char \<Rightarrow> bool" where
  \<comment> \<open>\<^verbatim>\<open>[A-Z0-9]\<close> under \<^verbatim>\<open>re.IGNORECASE\<close>\<close>
  "is_modifier c = (is_upper c \<or> is_lower c \<or> is_digit c)"

definition cpt_pattern :: regex where
  \<comment> \<open>\<^verbatim>\<open>\b\d{5}(?:-[A-Z0-9]{2})?\b\<close> with \<^verbatim>\<open>re.IGNORECASE\<close>\<close>
  "cpt_pattern =
     Seq WordB (Seq (times 5 (Cls is_digit))
       (Seq (opt (Seq (Lit ''-'') (times 2 (Cls is_modifier)))) WordB))"

definition is_upper_name_char :: "char \<Rightarrow> bool" where
  \<comment> \<open>\<^verbatim>\<open>[A-Z ,.'\-]\<close>\<close>
  "is_upper_name_char c = (is_upper c \<or> c \<in> set [CHR '' '', CHR '','', CHR ''.'', CHR 0x27, CHR ''-''])"

definition upper_name_pattern :: regex where
  \<comment> \<open>\<^verbatim>\<open>\b[A-Z ,.'\-]{3,}\b\<close>\<close>
  "upper_name_pattern = Seq WordB (Seq (Rep (Cls is_upper_name_char) 3 None True) WordB)"

definition mixed_name_pattern :: regex where
  \<comment> \<open>\<^verbatim>\<open>[A-Z][a-z]+(?: [A-Z][a-z]+)*, [A-Z][a-z]+(?: [A-Z]\.?)?\<close>\<close>
  "mixed_name_pattern =
     Seq (Cls is_upper) (Seq (plus (Cls is_lower))
       (Seq (star (Seq (Lit '' '') (Seq (Cls is_upper) (plus (Cls is_lower)))))
         (Seq (Lit '', '') (Seq (Cls is_upper) (Seq (plus (Cls is_lower))
           (opt (Seq (Lit '' '') (Seq (Cls is_upper) (opt (Lit ''.''))))))))))"

definition newline :: char where
  "newline = CHR 0x0A"

definition not_newline :: "char \<Rightarrow> bool" where
  \<comment> \<open>\<^verbatim>\<open>.\<close> (without \<^verbatim>\<open>re.DOTALL\<close>)\<close>
  "not_newline c = (c \<noteq> newline)"

definition account_line_pattern :: regex where
  \<comment> \<open>\<^verbatim>\<open>Account:\s*\d{4}.*?\n(.*)\<close>\<close>
  "account_line_pattern =
     Seq (Lit ''Account:'') (Seq (star (Cls is_space)) (Seq (times 4 (Cls is_digit))
       (Seq (Rep (Cls not_newline) 0 None False) (Seq (Lit [newline])
         (Grp (star (Cls not_newline)))))))"

section \<open>The program\<close>

definition ignore_words :: "string list" where
  \<comment> \<open>the module-level set, lines 49-52\<close>
  "ignore_words =
     [''SECONDARY'', ''PRIMARY'', ''DOL'', ''PAY'', ''INSURANCE'', ''PPO'', ''PLAN'',
      ''TOTALS'', ''BALANCE'', ''OVERPD'', ''GENESICARE'', ''YES'', ''NO'', ''FLORIDA'', ''USA'']"

definition ignore_words_local :: "string list" where
  \<comment> \<open>the set bound inside \<^verbatim>\<open>extract_patient_name\<close>, lines 61-65, which shadows the other\<close>
  "ignore_words_local =
     [''SECONDARY'', ''PRIMARY'', ''DOL'', ''PAY'', ''INSURANCE'', ''PPO'', ''PLAN'',
      ''TOTALS'', ''BALANCE'', ''OVERPD'', ''GENESISC'', ''GENESICARE'', ''FLORIDA'',
      ''USA'', ''NOT'', ''USE'', ''BCBS'', ''FBU'']"

definition upper_names :: "string \<Rightarrow> string list" where
  "upper_names block = findall upper_name_pattern block"

definition keeps_upper :: "string \<Rightarrow> bool" where
  \<comment> \<open>the condition of the comprehension at lines 72-73\<close>
  "keeps_upper n = (\<not> (\<exists>w \<in> set (split_ws n). w \<in> set ignore_words_local) \<and> 2 \<le> length (split_ws n))"

definition clean_upper :: "string \<Rightarrow> string list" where
  "clean_upper block = map strip (filter keeps_upper (upper_names block))"

definition mixed_names :: "string \<Rightarrow> string list" where
  "mixed_names block = findall mixed_name_pattern block"

definition keeps_mixed :: "string \<Rightarrow> bool" where
  \<comment> \<open>the condition of the comprehension at line 84\<close>
  "keeps_mixed m = (\<not> (\<exists>w \<in> set (split_ws m). upper w \<in> set ignore_words_local))"

definition mixed_clean :: "string \<Rightarrow> string list" where
  "mixed_clean block = filter keeps_mixed (mixed_names block)"

definition extract_patient_name :: "string \<Rightarrow> string" where
  "extract_patient_name block =
     (case max_len (clean_upper block) of
        Some n \<Rightarrow> title n
      | None \<Rightarrow>
          (case max_len (mixed_clean block) of
             Some m \<Rightarrow> strip m
           | None \<Rightarrow> []))"

definition group1 :: "found \<Rightarrow> string" where
  \<comment> \<open>\<^verbatim>\<open>match.group(1)\<close>, for a pattern with one capturing group\<close>
  "group1 f = (case f of (pre, m, rest, cs) \<Rightarrow> (case cs of [] \<Rightarrow> [] | g # _ \<Rightarrow> g))"

definition group0 :: "found \<Rightarrow> string" where
  \<comment> \<open>\<^verbatim>\<open>match.group(0)\<close>\<close>
  "group0 f = (case f of (pre, m, rest, cs) \<Rightarrow> m)"

definition extract_date_of_service :: "string \<Rightarrow> string" where
  "extract_date_of_service block =
     (let date_match =
            (case re_search account_line_pattern block of
               None \<Rightarrow> None
             | Some account_line_match \<Rightarrow> re_search date_pattern (group1 account_line_match))
      in case date_match of
           Some d \<Rightarrow> group0 d
         | None \<Rightarrow> (case findall date_pattern block of [] \<Rightarrow> [] | d # _ \<Rightarrow> d))"

definition extract_cpt_codes :: "string \<Rightarrow> string" where
  "extract_cpt_codes block =
     (let cpt_codes = findall cpt_pattern block
      in if cpt_codes = [] then []
         else join '', '' (sorted_list_of_set (set cpt_codes)))"

record row =
  account_number :: string
  patient_name :: string
  date_of_service :: string
  cpt_codes :: string

definition parse_block :: "string \<Rightarrow> row option" where
  \<comment> \<open>the body of the loop at lines 114-135: \<open>None\<close> is \<^verbatim>\<open>continue\<close>\<close>
  "parse_block block =
     (if strip block = [] then None
      else case re_search account_pattern block of
             None \<Rightarrow> None
           | Some acc_match \<Rightarrow>
               (let account_no = group1 acc_match;
                    name = extract_patient_name block;
                    date = extract_date_of_service block;
                    cpt_joined = extract_cpt_codes block
                in if cpt_joined = [] then None
                   else Some \<lparr>account_number = account_no, patient_name = name,
                               date_of_service = date, cpt_codes = cpt_joined\<rparr>))"

fun parse_blocks :: "row list \<Rightarrow> string list \<Rightarrow> row list" where
  \<comment> \<open>the loop, with \<^verbatim>\<open>records\<close> as accumulator\<close>
  "parse_blocks records [] = records"
| "parse_blocks records (block # blocks) =
     (case parse_block block of
        None \<Rightarrow> parse_blocks records blocks
      | Some r \<Rightarrow> parse_blocks (records @ [r]) blocks)"

text \<open>
  \<^verbatim>\<open>DataFrame.drop_duplicates(subset=["Account Number"])\<close> of pandas keeps the rows that
  \<^verbatim>\<open>duplicated\<close> does not mark; with the default \<^verbatim>\<open>keep="first"\<close> a row is marked when
  its key has occurred in an earlier row.
\<close>

fun duplicated :: "string list \<Rightarrow> string list \<Rightarrow> bool list" where
  "duplicated seen [] = []"
| "duplicated seen (k # ks) = (k \<in> set seen) # duplicated (k # seen) ks"

definition drop_duplicates :: "row list \<Rightarrow> row list" where
  "drop_duplicates df =
     map fst (filter (\<lambda>x. \<not> snd x) (zip df (duplicated [] (map account_number df))))"

datatype notice =
    Error_no_text          \<comment> \<open>\<^verbatim>\<open>st.error\<close>, line 33, followed by \<^verbatim>\<open>st.stop()\<close>\<close>
  | Warning_no_data        \<comment> \<open>\<^verbatim>\<open>st.warning\<close>, line 144\<close>
  | Success nat            \<comment> \<open>\<^verbatim>\<open>st.success\<close>, line 146, with the number of rows\<close>

definition blocks_of :: "string \<Rightarrow> string list" where
  "blocks_of full_text = re_split split_pattern full_text"

definition records_of :: "string \<Rightarrow> row list" where
  "records_of full_text = parse_blocks [] (blocks_of full_text)"

definition run :: "string \<Rightarrow> notice \<times> row list option" where
  \<comment> \<open>lines 32-146 on the extracted text: the message shown, and the data frame if one is built\<close>
  "run full_text =
     (if strip full_text = [] then (Error_no_text, None)
      else let df = drop_duplicates (records_of full_text)
           in if df = [] then (Warning_no_data, Some df)
              else (Success (length df), Some df))"


section \<open>Notions of the specification\<close>

text \<open>
  An account marker is \<^verbatim>\<open>Account:\<close>, optional whitespace and four digits. The following
  say, for a text that starts with a marker, what the marker is, what follows it and
  which account number would be read at it; and how a text is cut before every marker.
\<close>

definition marker_pattern :: regex where
  "marker_pattern = Seq (Lit ''Account:'') (Seq (star (Cls is_space)) (times 4 (Cls is_digit)))"

definition marker_rest :: "string \<Rightarrow> string" where
  "marker_rest s = drop 4 (dropWhile is_space (drop 8 s))"

definition marker_text :: "string \<Rightarrow> string" where
  "marker_text s = ''Account:'' @ takeWhile is_space (drop 8 s) @ take 4 (dropWhile is_space (drop 8 s))"

definition marker_at :: "string \<Rightarrow> bool" where
  "marker_at s = (prefix ''Account:'' s \<and> 4 \<le> length (takeWhile is_digit (dropWhile is_space (drop 8 s))))"

fun cut_at_markers :: "string \<Rightarrow> string \<Rightarrow> string list" where
  "cut_at_markers cur [] = [cur]"
| "cut_at_markers cur (c # s) =
     (if marker_at (c # s) then cur # cut_at_markers [c] s else cut_at_markers (cur @ [c]) s)"

definition account_digits :: "string \<Rightarrow> string" where
  "account_digits s = take 5 (takeWhile is_digit (dropWhile is_space (drop 8 s)))"

definition first_longest :: "string list \<Rightarrow> string option" where
  "first_longest xs = find (\<lambda>x. \<forall>y\<in>set xs. length y \<le> length x) xs"

definition is_alnum_ascii :: "char \<Rightarrow> bool" where
  "is_alnum_ascii c = (is_upper c \<or> is_lower c \<or> is_digit c)"

definition cpt_shape :: "string \<Rightarrow> bool" where
  "cpt_shape c = (list_all is_digit (take 5 c)
      \<and> (length c = 5 \<or> (length c = 8 \<and> c ! 5 = CHR ''-'' \<and> list_all is_alnum_ascii (drop 6 c))))"

definition modifier_follows :: "string \<Rightarrow> bool" where
  "modifier_follows t = (prefix ''-'' t \<and> 2 \<le> length (takeWhile is_modifier (drop 1 t))
      \<and> \<not> word_opt (next_char (drop 3 t)))"

fun split_from :: "string \<Rightarrow> string \<Rightarrow> string \<Rightarrow> string list" where
  "split_from sep cur [] = [cur]"
| "split_from sep cur (c # s) =
     (if prefix sep (c # s) then cur # split_from sep [] (drop (length sep - 1) s)
      else split_from sep (cur @ [c]) s)"

definition split_str :: "string \<Rightarrow> string \<Rightarrow> string list" where
  "split_str sep s = split_from sep [] s"

section \<open>Auxiliary notions for the proofs\<close>

definition pieces :: "(string \<times> string) list \<times> string \<Rightarrow> string list" where
  "pieces x = map fst (fst x) @ [snd x]"

definition prepend :: "string \<Rightarrow> string list \<Rightarrow> string list" where
  "prepend cur bs = (cur @ hd bs) # tl bs"

definition shift_scan :: "char \<Rightarrow> (string \<times> string) list \<times> string \<Rightarrow> (string \<times> string) list \<times> string" where
  "shift_scan c x = (case x of ([], e) \<Rightarrow> ([], c # e) | ((pre, m) # items, e) \<Rightarrow> ((c # pre, m) # items, e))"

definition bound :: "nat option \<Rightarrow> nat \<Rightarrow> nat" where
  "bound hi n = (case hi of None \<Rightarrow> n | Some h \<Rightarrow> min h n)"

definition cuts :: "bool \<Rightarrow> nat \<Rightarrow> nat \<Rightarrow> string \<Rightarrow> mres list" where
  "cuts greedy lo u s =
     map (\<lambda>k. (take k s, drop k s, [])) (if greedy then rev [lo ..< Suc u] else [lo ..< Suc u])"


definition dd :: "string list \<Rightarrow> row list \<Rightarrow> row list" where
  \<comment> \<open>\<^const>\<open>drop_duplicates\<close> started from a set of keys already seen\<close>
  "dd seen df = map fst (filter (\<lambda>x. \<not> snd x) (zip df (duplicated seen (map account_number df))))"

definition two_pages :: string where
  "two_pages = ''Account: 5001 JO DOE 99213 Account: 5001 AL ROE 99214''"

section \<open>Properties of the matcher\<close>

lemma then_match_iff:
  "(m, rest, cs) \<in> set (then_match g p x) \<longleftrightarrow>
     (\<exists>m2 c2. (m2, rest, c2) \<in> set (g (last_char p (fst x)) (fst (snd x)))
        \<and> m = fst x @ m2 \<and> cs = snd (snd x) @ c2)"
  by (cases x) (force simp: then_match_def)

lemma matches_Seq_iff:
  "(m, rest, cs) \<in> set (matches (Seq a b) p s) \<longleftrightarrow>
     (\<exists>m1 mid c1 m2 c2. (m1, mid, c1) \<in> set (matches a p s)
        \<and> (m2, rest, c2) \<in> set (matches b (last_char p m1) mid)
        \<and> m = m1 @ m2 \<and> cs = c1 @ c2)"
proof
  assume "(m, rest, cs) \<in> set (matches (Seq a b) p s)"
  then obtain x where "x \<in> set (matches a p s)"
    and "(m, rest, cs) \<in> set (then_match (matches b) p x)" by auto
  moreover obtain m1 mid c1 where "x = (m1, mid, c1)" by (cases x)
  ultimately have "(m1, mid, c1) \<in> set (matches a p s)"
    and "\<exists>m2 c2. (m2, rest, c2) \<in> set (matches b (last_char p m1) mid) \<and> m = m1 @ m2 \<and> cs = c1 @ c2"
    by (simp_all add: then_match_iff)
  then show "\<exists>m1 mid c1 m2 c2. (m1, mid, c1) \<in> set (matches a p s)
        \<and> (m2, rest, c2) \<in> set (matches b (last_char p m1) mid)
        \<and> m = m1 @ m2 \<and> cs = c1 @ c2"
    by blast
next
  assume "\<exists>m1 mid c1 m2 c2. (m1, mid, c1) \<in> set (matches a p s)
        \<and> (m2, rest, c2) \<in> set (matches b (last_char p m1) mid)
        \<and> m = m1 @ m2 \<and> cs = c1 @ c2"
  then obtain m1 mid c1 m2 c2 where a: "(m1, mid, c1) \<in> set (matches a p s)"
    and b: "(m2, rest, c2) \<in> set (matches b (last_char p m1) mid)"
    and eq: "m = m1 @ m2" "cs = c1 @ c2" by blast
  from b eq have "(m, rest, cs) \<in> set (then_match (matches b) p (m1, mid, c1))"
    by (auto simp: then_match_iff)
  with a show "(m, rest, cs) \<in> set (matches (Seq a b) p s)"
    by (auto intro!: bexI [of _ "(m1, mid, c1)"])
qed

lemma cuts_shift:
  "map (\<lambda>y. case y of (m', rest', cs') \<Rightarrow> ([c] @ m', rest', [] @ cs')) (cuts greedy lo u s)
     = map (\<lambda>k. (take k (c # s), drop k (c # s), [])) (if greedy then rev [Suc lo ..< Suc (Suc u)] else [Suc lo ..< Suc (Suc u)])"
proof -
  have "[Suc lo ..< Suc (Suc u)] = map Suc [lo ..< Suc u]"
    by (simp add: map_Suc_upt del: upt_Suc)
  then show ?thesis
    by (simp add: cuts_def rev_map del: upt_Suc)
qed

lemma rep_Cls_aux:
  assumes f: "\<And>p s. f p s = (case s of [] \<Rightarrow> [] | c # s' \<Rightarrow> if P c then [([c], s', [])] else [])"
  shows "length s \<le> n \<Longrightarrow>
   rep n f greedy lo hi p s = cuts greedy lo (bound hi (length (takeWhile P s))) s"
proof (induction n arbitrary: lo hi p s)
  case 0
  then show ?case by (auto simp: cuts_def bound_def split: option.splits)
next
  case (Suc n)
  let ?more = "concat (map (then_match (rep n f greedy (lo - 1) (dec hi)) p)
                                   (filter (\<lambda>x. fst x \<noteq> []) (f p s)))"
  show ?case
  proof (cases "s \<noteq> [] \<and> P (hd s) \<and> hi \<noteq> Some 0")
    case False
    then have "bound hi (length (takeWhile P s)) = 0"
      by (cases s) (auto simp: bound_def split: option.splits)
    moreover from False have "hi = Some 0 \<or> f p s = []"
      by (cases s) (auto simp: f)
    ultimately show ?thesis
      by (auto simp: cuts_def)
  next
    case True
    then obtain c s' where s: "s = c # s'" and c: "P c" and hi: "hi \<noteq> Some 0"
      by (cases s) auto
    from Suc.prems s have len: "length s' \<le> n" by simp
    let ?u = "bound (dec hi) (length (takeWhile P s'))"
    have u: "bound hi (length (takeWhile P s)) = Suc ?u"
      using s c hi by (auto simp: bound_def dec_def split: option.splits)
    have more: "?more
       = map (\<lambda>k. (take k s, drop k s, [])) (if greedy then rev [Suc (lo - 1) ..< Suc (Suc ?u)] else [Suc (lo - 1) ..< Suc (Suc ?u)])"
    proof -
      have "f p s = [([c], s', [])]" using s c by (simp add: f)
      then show ?thesis
        using s Suc.IH [OF len, of "lo - 1" "dec hi" "Some c"] cuts_shift [of c greedy "lo - 1" ?u s']
        by (simp add: then_match_def last_char_def del: upt_Suc)
    qed
    show ?thesis
    proof (cases "lo = 0")
      case True
      have "[0 ..< Suc (Suc ?u)] = 0 # [Suc 0 ..< Suc (Suc ?u)]"
        by (simp add: upt_conv_Cons del: upt_Suc)
      with True hi more u show ?thesis
        by (simp add: cuts_def del: upt_Suc)
    next
      case False
      with hi more u show ?thesis
        by (simp add: cuts_def del: upt_Suc)
    qed
  qed
qed

lemma matches_Rep_Cls:
  "matches (Rep (Cls P) lo hi greedy) p s = cuts greedy lo (bound hi (length (takeWhile P s))) s"
  using rep_Cls_aux [of "matches (Cls P)" P s "length s"] by (simp del: rep.simps)

lemma cuts_iff:
  "(m, rest, cs) \<in> set (cuts greedy lo u s) \<longleftrightarrow>
     (\<exists>k. lo \<le> k \<and> k \<le> u \<and> m = take k s \<and> rest = drop k s \<and> cs = [])"
  by (auto simp: cuts_def)


lemma rep_zero_max: "rep n f greedy 0 (Some 0) p s = [([], s, [])]"
  by (cases n) (simp_all add: Let_def)

lemma matches_nil: "x \<in> set (matches r p []) \<Longrightarrow> fst x = []"
  using matches_sound [of "fst x" "fst (snd x)" "snd (snd x)" r p "[]"] by simp

lemma then_match_stop: "then_match (rep n f greedy 0 (Some 0)) p x = [x]"
  by (cases x) (simp add: then_match_def rep_zero_max)

lemma matches_opt:
  "matches (Rep r 0 (Some 1) True) p s = filter (\<lambda>x. fst x \<noteq> []) (matches r p s) @ [([], s, [])]"
proof (cases s)
  case Nil
  have "filter (\<lambda>x. fst x \<noteq> []) (matches r p []) = []"
    by (auto simp: filter_empty_conv dest: matches_nil)
  with Nil show ?thesis by simp
next
  case (Cons c s')
  have "concat (map (then_match (rep (length s') (matches r) True 0 (Some 0)) p) xs) = xs" for xs
    by (induction xs) (simp_all add: then_match_stop)
  with Cons show ?thesis by (simp add: dec_def)
qed

lemma search_False_iff:
  "search r False p s = Some (pre, m, rest, cs) \<longleftrightarrow>
     s = pre @ m @ rest
   \<and> (\<exists>ys. matches r (last_char p pre) (m @ rest) = (m, rest, cs) # ys)
   \<and> (\<forall>u v. pre = u @ v \<and> v \<noteq> [] \<longrightarrow> matches r (last_char p u) (v @ m @ rest) = [])"
proof (induction s arbitrary: p pre)
  case Nil
  show ?case
  proof (cases "matches r p []")
    case Nil
    then show ?thesis by (auto simp: last_char_def)
  next
    case (Cons x xs)
    obtain m' rest' cs' where x: "x = (m', rest', cs')" by (cases x)
    from Cons x have "[] = m' @ rest'" using matches_sound [of m' rest' cs' r p "[]"] by simp
    with Cons x show ?thesis by (auto simp: last_char_def)
  qed
next
  case (Cons c s)
  show ?case
  proof (cases "matches r p (c # s)")
    case Nil
    show ?thesis
    proof
      assume "search r False p (c # s) = Some (pre, m, rest, cs)"
      with Nil obtain pre' where rec: "search r False (Some c) s = Some (pre', m, rest, cs)"
        and pre: "pre = c # pre'" by (auto split: option.splits)
      from rec have *: "s = pre' @ m @ rest"
        "\<exists>ys. matches r (last_char (Some c) pre') (m @ rest) = (m, rest, cs) # ys"
        "\<forall>u v. pre' = u @ v \<and> v \<noteq> [] \<longrightarrow> matches r (last_char (Some c) u) (v @ m @ rest) = []"
        unfolding Cons.IH by blast+
      have lc: "last_char p (c # u) = last_char (Some c) u" for u
        by (simp add: last_char_def)
      have "matches r (last_char p u) (v @ m @ rest) = []" if "pre = u @ v" "v \<noteq> []" for u v
      proof (cases u)
        case Nil
        with that pre have "v = c # pre'" by simp
        with Nil * \<open>matches r p (c # s) = []\<close> show ?thesis by (simp add: last_char_def)
      next
        case (Cons a u')
        with that pre have "pre' = u' @ v" "a = c" by simp_all
        with * that Cons show ?thesis by (simp add: lc)
      qed
      with * pre show "c # s = pre @ m @ rest
         \<and> (\<exists>ys. matches r (last_char p pre) (m @ rest) = (m, rest, cs) # ys)
         \<and> (\<forall>u v. pre = u @ v \<and> v \<noteq> [] \<longrightarrow> matches r (last_char p u) (v @ m @ rest) = [])"
        by (simp add: lc)
    next
      assume R: "c # s = pre @ m @ rest
         \<and> (\<exists>ys. matches r (last_char p pre) (m @ rest) = (m, rest, cs) # ys)
         \<and> (\<forall>u v. pre = u @ v \<and> v \<noteq> [] \<longrightarrow> matches r (last_char p u) (v @ m @ rest) = [])"
      have lc: "last_char p (c # u) = last_char (Some c) u" for u
        by (simp add: last_char_def)
      from R Nil have "pre \<noteq> []" by (auto simp: last_char_def)
      with R obtain pre' where pre: "pre = c # pre'" and s: "s = pre' @ m @ rest"
        by (cases pre) auto
      have "\<forall>u v. pre' = u @ v \<and> v \<noteq> [] \<longrightarrow> matches r (last_char (Some c) u) (v @ m @ rest) = []"
      proof (intro allI impI)
        fix u v assume "pre' = u @ v \<and> v \<noteq> []"
        with pre have "pre = (c # u) @ v \<and> v \<noteq> []" by simp
        with R have "matches r (last_char p (c # u)) (v @ m @ rest) = []" by blast
        then show "matches r (last_char (Some c) u) (v @ m @ rest) = []" by (simp add: lc)
      qed
      with R pre s have "search r False (Some c) s = Some (pre', m, rest, cs)"
        unfolding Cons.IH by (simp add: lc)
      with Nil pre show "search r False p (c # s) = Some (pre, m, rest, cs)" by simp
    qed
  next
    case (Cons x xs)
    obtain m' rest' cs' where x: "x = (m', rest', cs')" by (cases x)
    from Cons x have s: "c # s = m' @ rest'" using matches_sound [of m' rest' cs' r p "c # s"] by simp
    have S: "search r False p (c # s) = Some ([], m', rest', cs')" using Cons x by simp
    show ?thesis
    proof
      assume "search r False p (c # s) = Some (pre, m, rest, cs)"
      with S have "pre = []" "m = m'" "rest = rest'" "cs = cs'" by simp_all
      with Cons x s show "c # s = pre @ m @ rest
         \<and> (\<exists>ys. matches r (last_char p pre) (m @ rest) = (m, rest, cs) # ys)
         \<and> (\<forall>u v. pre = u @ v \<and> v \<noteq> [] \<longrightarrow> matches r (last_char p u) (v @ m @ rest) = [])"
        by (simp add: last_char_def)
    next
      assume R: "c # s = pre @ m @ rest
         \<and> (\<exists>ys. matches r (last_char p pre) (m @ rest) = (m, rest, cs) # ys)
         \<and> (\<forall>u v. pre = u @ v \<and> v \<noteq> [] \<longrightarrow> matches r (last_char p u) (v @ m @ rest) = [])"
      have "pre = []"
      proof (rule ccontr)
        assume "pre \<noteq> []"
        with R have "matches r (last_char p []) (pre @ m @ rest) = []" by blast
        with R Cons show False by (simp add: last_char_def)
      qed
      with R Cons x S show "search r False p (c # s) = Some (pre, m, rest, cs)"
        by (auto simp: last_char_def)
    qed
  qed
qed

lemma then_match_simp:
  "then_match g p (m, rest, cs) =
     map (\<lambda>y. case y of (m', rest', cs') \<Rightarrow> (m @ m', rest', cs @ cs')) (g (last_char p m) rest)"
  by (simp add: then_match_def)

lemma concat_map_Nil: "(\<And>x. x \<in> set xs \<Longrightarrow> f x = []) \<Longrightarrow> concat (map f xs) = []"
  by (induction xs) auto

lemma matches_Seq_until:
  assumes b: "\<And>q t. matches b q t \<noteq> [] \<Longrightarrow> t \<noteq> [] \<and> \<not> P (hd t)"
  shows "matches (Seq (Rep (Cls P) 0 None g) b) p s
           = then_match (matches b) p (takeWhile P s, dropWhile P s, [])"
proof -
  let ?u = "length (takeWhile P s)"
  let ?h = "\<lambda>k. (take k s, drop k s, [])"
  let ?f = "then_match (matches b) p"
  have fail: "?f (?h k) = []" if "k < ?u" for k
  proof -
    from that have "k < length s" using length_takeWhile_le [of P s] by simp
    then have ne: "drop k s \<noteq> []" by simp
    have "hd (drop k s) = s ! k" using \<open>k < length s\<close> by (simp add: hd_drop_conv_nth)
    also have "\<dots> = takeWhile P s ! k" using that by (simp add: takeWhile_nth)
    finally have hd: "hd (drop k s) = takeWhile P s ! k" .
    from that have "takeWhile P s ! k \<in> set (takeWhile P s)" by (rule nth_mem)
    then have "P (takeWhile P s ! k)" by (rule set_takeWhileD [THEN conjunct2])
    with hd have "P (hd (drop k s))" by simp
    with b [of _ "drop k s"] ne have "matches b (last_char p (take k s)) (drop k s) = []" by blast
    then show ?thesis by (simp add: then_match_simp)
  qed
  have last: "?h ?u = (takeWhile P s, dropWhile P s, [])"
    by (simp add: takeWhile_eq_take [symmetric] dropWhile_eq_drop [symmetric])
  have low: "concat (map ?f (map ?h [0 ..< ?u])) = []"
    by (rule concat_map_Nil) (auto simp: fail)
  have lowr: "concat (map ?f (map ?h (rev [0 ..< ?u]))) = []"
    by (rule concat_map_Nil) (auto simp: fail)
  have "matches (Seq (Rep (Cls P) 0 None g) b) p s = concat (map ?f (cuts g 0 ?u s))"
    by (simp add: matches_Rep_Cls bound_def del: matches.simps(4))
  also have "\<dots> = ?f (?h ?u)"
    using low lowr by (cases g) (simp_all add: cuts_def)
  finally show ?thesis using last by simp
qed

lemma matches_times:
  "matches (Rep (Cls P) n (Some n) True) p s =
     (if n \<le> length (takeWhile P s) then [(take n s, drop n s, [])] else [])"
  by (auto simp: matches_Rep_Cls cuts_def bound_def min_def simp del: matches.simps(4))

lemma matches_Seq_Lit:
  "matches (Seq (Lit l) b) p s =
     (if prefix l s then then_match (matches b) p (l, drop (length l) s, []) else [])"
  by simp

lemma matches_marker:
  "matches marker_pattern p s = (if marker_at s then [(marker_text s, marker_rest s, [])] else [])"
proof -
  have b: "matches (times 4 (Cls is_digit)) q t \<noteq> [] \<Longrightarrow> t \<noteq> [] \<and> \<not> is_space (hd t)" for q t
    by (cases t) (auto simp: matches_times is_space_def is_digit_def simp del: matches.simps(4) split: if_splits)
  have "matches (Seq (star (Cls is_space)) (times 4 (Cls is_digit))) q t =
     then_match (matches (times 4 (Cls is_digit))) q (takeWhile is_space t, dropWhile is_space t, [])" for q t
    by (rule matches_Seq_until) (fact b)
  then have inner: "matches (Seq (star (Cls is_space)) (times 4 (Cls is_digit))) q t =
     (if 4 \<le> length (takeWhile is_digit (dropWhile is_space t))
      then [(takeWhile is_space t @ take 4 (dropWhile is_space t), drop 4 (dropWhile is_space t), [])]
      else [])" for q t
    by (simp add: then_match_simp matches_times del: matches.simps(3,4))
  have l8: "length ''Account:'' = 8" by simp
  show ?thesis
    unfolding marker_pattern_def matches_Seq_Lit then_match_simp inner l8
    by (simp add: marker_at_def marker_text_def marker_rest_def)
qed

lemma matches_split_pattern:
  "matches split_pattern p s = (if marker_at s then [([], s, [])] else [])"
proof -
  have "split_pattern = Look marker_pattern"
    by (simp add: split_pattern_def marker_pattern_def)
  show ?thesis
    unfolding \<open>split_pattern = Look marker_pattern\<close> matches.simps(6) matches_marker
    by simp
qed

lemma pieces_shift_scan: "pieces (shift_scan c x) = prepend [c] (pieces x)"
  by (cases x) (auto simp: pieces_def shift_scan_def prepend_def split: list.splits)

lemma prepend_prepend: "prepend a (prepend b bs) = prepend (a @ b) bs"
  by (simp add: prepend_def)

lemma prepend_Nil: "bs \<noteq> [] \<Longrightarrow> prepend [] bs = bs"
  by (simp add: prepend_def)

lemma pieces_ne: "pieces x \<noteq> []"
  by (simp add: pieces_def)

lemma not_marker_at_Nil: "\<not> marker_at []"
  by (simp add: marker_at_def)

lemma search_split_False:
  "search split_pattern False p (c # s) =
     (if marker_at (c # s) then Some ([], [], c # s, [])
      else (case search split_pattern False (Some c) s of
              None \<Rightarrow> None | Some (pre, m, rest, cs) \<Rightarrow> Some (c # pre, m, rest, cs)))"
  by (simp add: matches_split_pattern del: matches.simps)

lemma search_split_True:
  "search split_pattern True p (c # s) =
     (case search split_pattern False (Some c) s of
              None \<Rightarrow> None | Some (pre, m, rest, cs) \<Rightarrow> Some (c # pre, m, rest, cs))"
  by (simp add: matches_split_pattern del: matches.simps)

lemma search_split_Nil: "search split_pattern adv p [] = None"
  by (simp add: matches_split_pattern not_marker_at_Nil del: matches.simps)

lemma last_char_Cons: "last_char p (c # u) = last_char (Some c) u"
  by (simp add: last_char_def)

lemma scan_shift:
  assumes "search r adv p (c # s) =
     (case search r False (Some c) s of
              None \<Rightarrow> None | Some (pre, m, rest, cs) \<Rightarrow> Some (c # pre, m, rest, cs))"
  shows "scan r adv p (c # s) = shift_scan c (scan r False (Some c) s)"
proof (cases "search r False (Some c) s")
  case None
  with assms show ?thesis
    by (subst scan.simps, subst (2) scan.simps) (simp add: shift_scan_def del: search.simps)
next
  case (Some f)
  obtain pre m rest cs where f: "f = (pre, m, rest, cs)" by (cases f)
  with Some assms show ?thesis
    by (subst scan.simps, subst (2) scan.simps)
       (simp add: shift_scan_def last_char_Cons del: search.simps split: prod.splits)
qed

lemma scan_split_marker:
  "marker_at (c # s) \<Longrightarrow>
   scan split_pattern False p (c # s) = (([], []) # fst (scan split_pattern True p (c # s)),
                                      snd (scan split_pattern True p (c # s)))"
  by (subst scan.simps) (simp add: search_split_False last_char_def del: search.simps split: prod.splits)

lemma re_split_cut_aux:
  "prepend cur (pieces (scan split_pattern False p s)) = cut_at_markers cur s"
proof (induction s arbitrary: cur p)
  case Nil
  show ?case
    by (subst scan.simps) (simp add: search_split_Nil pieces_def prepend_def del: search.simps)
next
  case (Cons c s)
  have T: "prepend cur (pieces (scan split_pattern True p (c # s))) = cut_at_markers (cur @ [c]) s" for cur p
    using scan_shift [OF search_split_True [of p c s]] Cons.IH [of "cur @ [c]" "Some c"]
    by (simp add: pieces_shift_scan prepend_prepend)
  show ?case
  proof (cases "marker_at (c # s)")
    case True
    have "pieces (scan split_pattern False p (c # s)) = [] # pieces (scan split_pattern True p (c # s))"
      unfolding scan_split_marker [OF True] by (simp add: pieces_def)
    moreover have "pieces (scan split_pattern True p (c # s)) = cut_at_markers [c] s"
      using T [of "[]" p] by (simp add: prepend_Nil pieces_ne)
    ultimately show ?thesis using True by (simp add: prepend_def)
  next
    case False
    then have "search split_pattern False p (c # s) =
     (case search split_pattern False (Some c) s of
              None \<Rightarrow> None | Some (pre, m, rest, cs) \<Rightarrow> Some (c # pre, m, rest, cs))"
      by (simp add: search_split_False del: search.simps)
    from scan_shift [OF this] Cons.IH [of "cur @ [c]" "Some c"] False show ?thesis
      by (simp add: pieces_shift_scan prepend_prepend)
  qed
qed

lemma blocks_of_cut: "blocks_of t = cut_at_markers [] t"
proof -
  have "blocks_of t = pieces (scan split_pattern False None t)"
    by (simp add: blocks_of_def re_split_def pieces_def split: prod.splits)
  also have "\<dots> = prepend [] (pieces (scan split_pattern False None t))"
    by (simp add: prepend_Nil pieces_ne)
  finally show ?thesis by (simp add: re_split_cut_aux)
qed

lemma concat_cut: "concat (cut_at_markers cur s) = cur @ s"
  by (induction s arbitrary: cur) auto

lemma cut_ne: "cut_at_markers cur s \<noteq> []"
  by (induction s arbitrary: cur) auto

lemma not_space_A: "\<not> is_space CHR ''A''" by (simp add: is_space_def code_def)

lemma not_digit_A: "\<not> is_digit CHR ''A''" by (simp add: is_digit_def code_def)

lemma marker_at_hd: "marker_at s \<Longrightarrow> s \<noteq> [] \<and> hd s = CHR ''A''"
  by (auto simp: marker_at_def prefix_def)

lemma marker_no_overlap:
  assumes m: "marker_at (x @ y)" and x: "x \<noteq> []" and y: "y = [] \<or> hd y = CHR ''A''"
  shows "marker_at x \<and> marker_rest (x @ y) = marker_rest x @ y \<and> marker_text (x @ y) = marker_text x"
proof -
  from m have pre: "prefix ''Account:'' (x @ y)" by (simp add: marker_at_def)
  have px: "prefix ''Account:'' x"
  proof (rule ccontr)
    assume n: "\<not> prefix ''Account:'' x"
    with pre obtain us where us: "''Account:'' = x @ us" "prefix us y"
      by (auto simp: prefix_append)
    with n have "us \<noteq> []" by auto
    with us y have hd: "hd us = CHR ''A''" by (cases us; cases y) auto
    from us(1) x obtain x' where "x = CHR ''A'' # x'" "''ccount:'' = x' @ us"
      by (cases x) auto
    then have "set us \<subseteq> set ''ccount:''" by (metis set_append sup_ge2)
    with \<open>us \<noteq> []\<close> hd show False by (cases us) auto
  qed
  then obtain x' where x': "x = ''Account:'' @ x'" by (auto simp: prefix_def)
  have dy: "dropWhile is_space y = y" using y not_space_A by (cases y) auto
  have ty: "takeWhile is_digit y = []" using y not_digit_A by (cases y) auto
  from m x' have four: "4 \<le> length (takeWhile is_digit (dropWhile is_space (x' @ y)))"
    by (simp add: marker_at_def)
  have ns: "\<not> (\<forall>c\<in>set x'. is_space c)"
  proof
    assume "\<forall>c\<in>set x'. is_space c"
    then have "dropWhile is_space (x' @ y) = y" by (simp add: dropWhile_append dy)
    with four ty show False by simp
  qed
  then have d: "dropWhile is_space (x' @ y) = dropWhile is_space x' @ y"
    and t: "takeWhile is_space (x' @ y) = takeWhile is_space x'"
    by (auto simp: dropWhile_append takeWhile_append)
  let ?z = "dropWhile is_space x'"
  have tz: "takeWhile is_digit (?z @ y) = takeWhile is_digit ?z"
  proof (cases "\<forall>c\<in>set ?z. is_digit c")
    case True
    then have eq: "takeWhile is_digit ?z = ?z" by (simp add: takeWhile_eq_all_conv)
    from True show ?thesis by (simp add: takeWhile_append ty eq)
  next
    case False
    then show ?thesis by (auto simp: takeWhile_append)
  qed
  with four d have z4: "4 \<le> length (takeWhile is_digit ?z)" by simp
  then have "4 \<le> length ?z" using length_takeWhile_le [of is_digit ?z] by linarith
  with x' d t px z4 show ?thesis
    by (simp add: marker_at_def marker_rest_def marker_text_def)
qed

lemma cut_head:
  "\<exists>s1 s2. s = s1 @ s2 \<and> hd (cut_at_markers cur s) = cur @ s1 \<and> (s2 = [] \<or> marker_at s2)
     \<and> (\<forall>u v. s1 = u @ v \<and> v \<noteq> [] \<longrightarrow> \<not> marker_at (v @ s2))"
proof (induction s arbitrary: cur)
  case Nil
  show ?case by simp
next
  case (Cons c s)
  show ?case
  proof (cases "marker_at (c # s)")
    case True
    then have "c # s = [] @ (c # s) \<and> hd (cut_at_markers cur (c # s)) = cur @ [] \<and> (c # s = [] \<or> marker_at (c # s))
     \<and> (\<forall>u v. [] = u @ v \<and> v \<noteq> [] \<longrightarrow> \<not> marker_at (v @ c # s))" by simp
    then show ?thesis by blast
  next
    case False
    from Cons.IH [of "cur @ [c]"] obtain s1 s2 where *: "s = s1 @ s2"
      "hd (cut_at_markers (cur @ [c]) s) = (cur @ [c]) @ s1" "s2 = [] \<or> marker_at s2"
      "\<forall>u v. s1 = u @ v \<and> v \<noteq> [] \<longrightarrow> \<not> marker_at (v @ s2)" by blast
    have "\<not> marker_at (v @ s2)" if "c # s1 = u @ v" "v \<noteq> []" for u v
    proof (cases u)
      case Nil
      with that have "v = c # s1" by simp
      with * False show ?thesis by simp
    next
      case (Cons a u')
      with that have "s1 = u' @ v" by simp
      with * that show ?thesis by blast
    qed
    with * False have "c # s = (c # s1) @ s2 \<and> hd (cut_at_markers cur (c # s)) = cur @ (c # s1)
        \<and> (s2 = [] \<or> marker_at s2)
        \<and> (\<forall>u v. c # s1 = u @ v \<and> v \<noteq> [] \<longrightarrow> \<not> marker_at (v @ s2))" by simp
    then show ?thesis by blast
  qed
qed

lemma cut_tail_markers: "b \<in> set (tl (cut_at_markers cur s)) \<Longrightarrow> marker_at b"
proof (induction s arbitrary: cur)
  case Nil
  then show ?case by simp
next
  case (Cons c s)
  show ?case
  proof (cases "marker_at (c # s)")
    case True
    with Cons.prems have b: "b \<in> set (cut_at_markers [c] s)" by simp
    show ?thesis
    proof (cases "b = hd (cut_at_markers [c] s)")
      case True
      from cut_head [of s "[c]"] obtain s1 s2 where *: "s = s1 @ s2"
        "hd (cut_at_markers [c] s) = [c] @ s1" "s2 = [] \<or> marker_at s2" by blast
      from *(3) have "s2 = [] \<or> hd s2 = CHR ''A''" using marker_at_hd by blast
      with marker_no_overlap [of "[c] @ s1" s2] \<open>marker_at (c # s)\<close> *(1)
      have "marker_at ([c] @ s1)" by simp
      with True * show ?thesis by simp
    next
      case False
      with b cut_ne [of "[c]" s] have "b \<in> set (tl (cut_at_markers [c] s))"
        by (cases "cut_at_markers [c] s") auto
      then show ?thesis by (rule Cons.IH)
    qed
  next
    case False
    with Cons.prems have "b \<in> set (tl (cut_at_markers (cur @ [c]) s))" by simp
    then show ?thesis by (rule Cons.IH)
  qed
qed

lemma length_cut: "length (cut_at_markers cur s) = Suc (length (filter marker_at (suffixes s)))"
  by (induction s arbitrary: cur) (auto simp: not_marker_at_Nil)

lemma matches_Grp_Rep_Cls:
  "matches (Grp (Rep (Cls P) lo hi g)) p s =
     map (\<lambda>x. case x of (m, rest, cs) \<Rightarrow> (m, rest, m # cs)) (cuts g lo (bound hi (length (takeWhile P s))) s)"
  by (simp add: matches_Rep_Cls del: matches.simps(4))

lemma cuts_greedy_hd:
  "lo \<le> u \<Longrightarrow> cuts True lo u s = (take u s, drop u s, []) # cuts True lo (u - 1) s \<or> (lo = u \<and> cuts True lo u s = [(take u s, drop u s, [])])"
  by (cases "lo = u") (auto simp: cuts_def)

lemma cuts_greedy_head: "lo \<le> u \<Longrightarrow> \<exists>ys. cuts True lo u s = (take u s, drop u s, []) # ys"
  by (simp add: cuts_def)

lemma cuts_empty: "u < lo \<Longrightarrow> cuts g lo u s = []"
  by (simp add: cuts_def)

lemma matches_account:
  "matches account_pattern p s =
     (if prefix ''Account:'' s
      then map (\<lambda>x. case x of (m, rest, cs) \<Rightarrow> (''Account:'' @ takeWhile is_space (drop 8 s) @ m, rest, [m]))
             (cuts True 4 (min 5 (length (takeWhile is_digit (dropWhile is_space (drop 8 s)))))
                 (dropWhile is_space (drop 8 s)))
      else [])"
proof -
  let ?b = "Grp (Rep (Cls is_digit) 4 (Some 5) True)"
  have b: "matches ?b q t \<noteq> [] \<Longrightarrow> t \<noteq> [] \<and> \<not> is_space (hd t)" for q t
    unfolding matches_Grp_Rep_Cls
    by (cases t) (auto simp: cuts_def bound_def is_space_def is_digit_def split: if_splits)
  have "matches (Seq (star (Cls is_space)) ?b) q t =
     then_match (matches ?b) q (takeWhile is_space t, dropWhile is_space t, [])" for q t
    by (rule matches_Seq_until) (fact b)
  then have inner: "matches (Seq (star (Cls is_space)) ?b) q t =
     map (\<lambda>x. case x of (m, rest, cs) \<Rightarrow> (takeWhile is_space t @ m, rest, [m]))
       (cuts True 4 (min 5 (length (takeWhile is_digit (dropWhile is_space t)))) (dropWhile is_space t))" for q t
    unfolding then_match_simp matches_Grp_Rep_Cls
    by (simp add: bound_def cuts_def)
  have l8: "length ''Account:'' = 8" by simp
  show ?thesis
    unfolding account_pattern_def matches_Seq_Lit then_match_simp inner l8
    by (simp add: cuts_def)
qed

lemma matches_account_Nil: "matches account_pattern p s = [] \<longleftrightarrow> \<not> marker_at s"
  unfolding matches_account by (auto simp: marker_at_def cuts_def)

lemma matches_account_hd:
  assumes "marker_at s"
  shows "\<exists>ys. matches account_pattern p s =
     (''Account:'' @ takeWhile is_space (drop 8 s) @ account_digits s,
      drop (length (account_digits s)) (dropWhile is_space (drop 8 s)), [account_digits s]) # ys"
proof -
  let ?r = "dropWhile is_space (drop 8 s)"
  let ?u = "min 5 (length (takeWhile is_digit ?r))"
  from assms have u: "4 \<le> ?u" by (simp add: marker_at_def)
  have "account_digits s = take 5 (take (length (takeWhile is_digit ?r)) ?r)"
    unfolding account_digits_def by (subst takeWhile_eq_take) (rule refl)
  then have ad: "account_digits s = take ?u ?r"
    by (simp only: take_take)
  have "?u \<le> length ?r" using length_takeWhile_le [of is_digit ?r] by simp
  then have len: "length (take ?u ?r) = ?u" by simp
  let ?F = "\<lambda>x. case x of (m, rest, cs) \<Rightarrow> (''Account:'' @ takeWhile is_space (drop 8 s) @ m, rest, [m])"
  from cuts_greedy_head [OF u, of ?r] obtain ys
    where c: "cuts True 4 ?u ?r = (take ?u ?r, drop ?u ?r, []) # ys" ..
  from assms have "prefix ''Account:'' s" by (simp add: marker_at_def)
  then have "matches account_pattern p s = map ?F (cuts True 4 ?u ?r)"
    by (simp only: matches_account if_True)
  also have "\<dots> = ?F (take ?u ?r, drop ?u ?r, []) # map ?F ys"
    by (simp add: c)
  also have "?F (take ?u ?r, drop ?u ?r, []) =
      (''Account:'' @ takeWhile is_space (drop 8 s) @ account_digits s,
      drop (length (account_digits s)) (dropWhile is_space (drop 8 s)), [account_digits s])"
    by (simp only: len ad prod.case)
  finally show ?thesis by blast
qed

lemma search_False_None_iff:
  "search r False p s = None \<longleftrightarrow> (\<forall>u v. s = u @ v \<longrightarrow> matches r (last_char p u) v = [])"
proof (induction s arbitrary: p)
  case Nil
  show ?case by (auto simp: last_char_def split: list.splits)
next
  case (Cons c s)
  have lc: "last_char p (c # u) = last_char (Some c) u" for u
    by (simp add: last_char_def)
  show ?case
  proof (cases "matches r p (c # s)")
    case Nil
    have A: "(\<forall>u v. c # s = u @ v \<longrightarrow> matches r (last_char p u) v = [])
        \<longleftrightarrow> (\<forall>u v. s = u @ v \<longrightarrow> matches r (last_char (Some c) u) v = [])"
    proof (intro iffI allI impI)
      fix u v assume a: "\<forall>u v. c # s = u @ v \<longrightarrow> matches r (last_char p u) v = []" and "s = u @ v"
      then have "c # s = (c # u) @ v" by simp
      with a have "matches r (last_char p (c # u)) v = []" by blast
      then show "matches r (last_char (Some c) u) v = []" by (simp add: lc)
    next
      fix u v assume a: "\<forall>u v. s = u @ v \<longrightarrow> matches r (last_char (Some c) u) v = []" and s: "c # s = u @ v"
      show "matches r (last_char p u) v = []"
      proof (cases u)
        case Nil
        with s \<open>matches r p (c # s) = []\<close> show ?thesis by (simp add: last_char_def)
      next
        case (Cons a u')
        with s have "s = u' @ v" "a = c" by simp_all
        with a Cons show ?thesis by (simp add: lc)
      qed
    qed
    from Nil have B: "search r False p (c # s) = None \<longleftrightarrow> search r False (Some c) s = None"
      by (simp split: option.splits)
    show ?thesis unfolding B A by (rule Cons.IH)
  next
    case (Cons x xs)
    then have "matches r (last_char p []) (c # s) \<noteq> []" by (simp add: last_char_def)
    then have "\<exists>u v. c # s = u @ v \<and> matches r (last_char p u) v \<noteq> []"
      by (intro exI [of _ "[]"] exI [of _ "c # s"]) simp
    then have "\<not> (\<forall>u v. c # s = u @ v \<longrightarrow> matches r (last_char p u) v = [])"
      by blast
    with Cons show ?thesis by (simp split: prod.splits)
  qed
qed

lemma re_search_account_None:
  "re_search account_pattern b = None \<longleftrightarrow> (\<forall>u v. b = u @ v \<longrightarrow> \<not> marker_at v)"
  by (simp add: re_search_def search_False_None_iff matches_account_Nil del: search.simps)

lemma re_search_account_Some:
  assumes "re_search account_pattern b = Some (pre, m, rest, cs)"
  shows "b = pre @ m @ rest \<and> marker_at (m @ rest) \<and> cs = [account_digits (m @ rest)]
     \<and> m = ''Account:'' @ takeWhile is_space (drop 8 (m @ rest)) @ account_digits (m @ rest)
     \<and> (\<forall>u v. pre = u @ v \<and> v \<noteq> [] \<longrightarrow> \<not> marker_at (v @ m @ rest))"
proof -
  from assms have *: "b = pre @ m @ rest"
    "\<exists>ys. matches account_pattern (last_char None pre) (m @ rest) = (m, rest, cs) # ys"
    "\<forall>u v. pre = u @ v \<and> v \<noteq> [] \<longrightarrow> matches account_pattern (last_char None u) (v @ m @ rest) = []"
    unfolding re_search_def search_False_iff by blast+
  from *(2) have ma: "marker_at (m @ rest)" using matches_account_Nil [of "last_char None pre" "m @ rest"] by auto
  from matches_account_hd [OF ma, of "last_char None pre"] *(2)
  have "m = ''Account:'' @ takeWhile is_space (drop 8 (m @ rest)) @ account_digits (m @ rest)"
    and "cs = [account_digits (m @ rest)]" by auto
  with * ma show ?thesis by (simp add: matches_account_Nil del: matches.simps)
qed

lemma strip_Nil_iff: "strip s = [] \<longleftrightarrow> (\<forall>c\<in>set s. is_space c)"
proof
  let ?d = "dropWhile is_space s"
  assume "strip s = []"
  then have "dropWhile is_space (rev ?d) = []" by (simp add: strip_def)
  then have all: "\<forall>c\<in>set ?d. is_space c" by (simp add: dropWhile_eq_Nil_conv)
  have "?d = []"
  proof (rule ccontr)
    assume ne: "?d \<noteq> []"
    then have "\<not> is_space (hd ?d)" by (rule hd_dropWhile)
    moreover from ne have "hd ?d \<in> set ?d" by (rule hd_in_set)
    ultimately show False using all by blast
  qed
  then show "\<forall>c\<in>set s. is_space c" by (simp add: dropWhile_eq_Nil_conv)
next
  assume "\<forall>c\<in>set s. is_space c"
  then have d: "dropWhile is_space s = []" by (simp add: dropWhile_eq_Nil_conv)
  show "strip s = []" unfolding strip_def d by simp
qed

lemma account_found_not_blank:
  assumes "re_search account_pattern b \<noteq> None"
  shows "strip b \<noteq> []"
proof -
  from assms obtain u v where "b = u @ v" "marker_at v" by (auto simp: re_search_account_None)
  then have "CHR ''A'' \<in> set b" using marker_at_hd [of v] by (cases v) auto
  with not_space_A show ?thesis by (auto simp: strip_Nil_iff)
qed

lemma cut_no_marker:
  "(\<forall>u v. s = u @ v \<longrightarrow> \<not> marker_at v) \<Longrightarrow> cut_at_markers cur s = [cur @ s]"
proof (induction s arbitrary: cur)
  case Nil
  show ?case by simp
next
  case (Cons c s)
  from Cons.prems have "\<not> marker_at (c # s)" by (metis append_Nil)
  moreover have "\<forall>u v. s = u @ v \<longrightarrow> \<not> marker_at v"
    using Cons.prems by (metis append_Cons)
  ultimately show ?case using Cons.IH [of "cur @ [c]"] by simp
qed

lemma marker_at_sublist: "marker_at v \<Longrightarrow> sublist ''Account:'' (u @ v)"
proof -
  assume "marker_at v"
  then obtain w where "v = ''Account:'' @ w" by (auto simp: marker_at_def prefix_def)
  then have "u @ v = u @ ''Account:'' @ w" by simp
  then show ?thesis unfolding sublist_def by blast
qed

section \<open>Removal of duplicates\<close>

lemma dd_Nil: "dd seen [] = []"
  by (simp add: dd_def)

lemma dd_Cons: "dd seen (r # rs) =
   (if account_number r \<in> set seen then dd (account_number r # seen) rs
    else r # dd (account_number r # seen) rs)"
  by (simp add: dd_def)

lemma dd_filter:
  "filter (\<lambda>r. account_number r = a) (dd seen rs) =
     (if a \<in> set seen then [] else take 1 (filter (\<lambda>r. account_number r = a) rs))"
proof (induction rs arbitrary: seen)
  case Nil
  show ?case by (simp add: dd_Nil)
next
  case (Cons r rs)
  show ?case by (auto simp: dd_Cons Cons.IH)
qed

lemma dd_keys: "set (map account_number (dd seen rs)) = set (map account_number rs) - set seen"
  by (induction rs arbitrary: seen) (auto simp: dd_Nil dd_Cons)

lemma dd_distinct: "distinct (map account_number (dd seen rs))"
proof (induction rs arbitrary: seen)
  case Nil
  show ?case by (simp add: dd_Nil)
next
  case (Cons r rs)
  have "account_number r \<notin> set (map account_number (dd (account_number r # seen) rs))"
    unfolding dd_keys by simp
  with Cons.IH show ?case by (simp add: dd_Cons)
qed

lemma dd_subseq: "subseq (dd seen rs) rs"
  by (induction rs arbitrary: seen) (auto simp: dd_Nil dd_Cons)

lemma drop_duplicates_dd: "drop_duplicates df = dd [] df"
  by (simp add: drop_duplicates_def dd_def)

lemma parse_blocks_map_filter:
  "parse_blocks records blocks = records @ List.map_filter parse_block blocks"
  by (induction blocks arbitrary: records) (auto split: option.splits)

lemma run_table: "snd (run t) = Some df \<Longrightarrow> df = drop_duplicates (records_of t)"
  by (auto simp: run_def Let_def split: if_splits)

text \<open>
  C1. Whenever a data frame is built, no two of its rows have the same account number;
  its rows are rows of \<^verbatim>\<open>records\<close> in their original order; for every account number it
  holds exactly the first row of \<^verbatim>\<open>records\<close> with that number (the whole row, so all
  four fields), and no later one; and \<^verbatim>\<open>records\<close> holds the rows built from the blocks
  in document order.
\<close>

theorem unique_account_numbers_first_kept:
  "snd (run full_text) = Some df \<Longrightarrow>
     distinct (map account_number df)
   \<and> subseq df (records_of full_text)
   \<and> (\<forall>a. filter (\<lambda>r. account_number r = a) df
            = take 1 (filter (\<lambda>r. account_number r = a) (records_of full_text)))
   \<and> records_of full_text = List.map_filter parse_block (blocks_of full_text)"
  by (auto dest!: run_table
      simp: drop_duplicates_dd dd_distinct dd_subseq dd_filter records_of_def parse_blocks_map_filter)

theorem unique_account_numbers_first_kept_witness:
  "map account_number (records_of two_pages) = [''5001'', ''5001'']
   \<and> snd (run two_pages) = Some [\<lparr>account_number = ''5001'', patient_name = ''Jo Doe'',
                                   date_of_service = [], cpt_codes = ''99213''\<rparr>]
   \<and> distinct (map account_number [\<lparr>account_number = ''5001'', patient_name = ''Jo Doe'',
                                   date_of_service = [], cpt_codes = ''99213''\<rparr>])
   \<and> filter (\<lambda>r. account_number r = ''5001'') [\<lparr>account_number = ''5001'', patient_name = ''Jo Doe'',
                                   date_of_service = [], cpt_codes = ''99213''\<rparr>]
       = take 1 (filter (\<lambda>r. account_number r = ''5001'') (records_of two_pages))"
proof -
  have keys: "map account_number (records_of two_pages) = [''5001'', ''5001'']"
    by code_simp
  have out: "snd (run two_pages) = Some [\<lparr>account_number = ''5001'', patient_name = ''Jo Doe'',
                                   date_of_service = [], cpt_codes = ''99213''\<rparr>]"
    by code_simp
  from unique_account_numbers_first_kept [OF out] keys out show ?thesis
    by blast
qed


section \<open>Blocks that give no row\<close>

text \<open>
  C2. A block in which the account pattern is found but for which \<^const>\<open>extract_cpt_codes\<close>
  returns the empty string gives no row; nothing is raised, and the loop goes on with the
  remaining blocks exactly as if the block were not there.
\<close>

theorem cpt_absent_block_skipped:
  "re_search account_pattern block \<noteq> None \<Longrightarrow> extract_cpt_codes block = [] \<Longrightarrow>
     parse_block block = None
   \<and> parse_blocks records (before @ block # after) = parse_blocks records (before @ after)"
proof -
  assume "re_search account_pattern block \<noteq> None" and "extract_cpt_codes block = []"
  then have "parse_block block = None"
    by (simp add: parse_block_def Let_def split: option.splits)
  then show ?thesis
    by (simp add: parse_blocks_map_filter List.map_filter_def)
qed

theorem cpt_absent_block_skipped_witness:
  "re_search account_pattern ''Account: 1234 JO DOE'' \<noteq> None
   \<and> extract_cpt_codes ''Account: 1234 JO DOE'' = []
   \<and> parse_block ''Account: 1234 JO DOE'' = None
   \<and> parse_blocks [] ([] @ ''Account: 1234 JO DOE'' # [''Account: 5678 99213''])
       = parse_blocks [] ([] @ [''Account: 5678 99213''])"
proof -
  have a: "re_search account_pattern ''Account: 1234 JO DOE'' \<noteq> None"
    by code_simp
  have c: "extract_cpt_codes ''Account: 1234 JO DOE'' = []"
    by code_simp
  from cpt_absent_block_skipped [OF a c, of "[]" "[]" "[''Account: 5678 99213'']"] a c
  show ?thesis by blast
qed

text \<open>
  C3, as amended. Two fields are fatal to a block when absent, the account number and
  the CPT codes: a block without the account pattern gives no row, and a block without
  a CPT code gives no row. The patient name and the date of service are not: whenever
  the account pattern and at least one CPT code are found, a row is produced, whatever
  the name and the date extracted (empty or not).
\<close>

theorem fatal_fields:
  "(re_search account_pattern block = None \<longrightarrow> parse_block block = None)
   \<and> (extract_cpt_codes block = [] \<longrightarrow> parse_block block = None)
   \<and> (re_search account_pattern block \<noteq> None \<and> extract_cpt_codes block \<noteq> [] \<longrightarrow>
        (\<exists>r. parse_block block = Some r
             \<and> patient_name r = extract_patient_name block
             \<and> date_of_service r = extract_date_of_service block))"
proof (intro conjI impI)
  assume "re_search account_pattern block = None"
  then show "parse_block block = None" by (simp add: parse_block_def)
next
  assume "extract_cpt_codes block = []"
  then show "parse_block block = None"
    by (simp add: parse_block_def Let_def split: option.splits)
next
  assume a: "re_search account_pattern block \<noteq> None \<and> extract_cpt_codes block \<noteq> []"
  then obtain f where f: "re_search account_pattern block = Some f" by auto
  from a have "strip block \<noteq> []" by (simp add: account_found_not_blank)
  with a f have "parse_block block = Some \<lparr>account_number = group1 f,
      patient_name = extract_patient_name block, date_of_service = extract_date_of_service block,
      cpt_codes = extract_cpt_codes block\<rparr>"
    by (simp add: parse_block_def Let_def)
  then show "\<exists>r. parse_block block = Some r
             \<and> patient_name r = extract_patient_name block
             \<and> date_of_service r = extract_date_of_service block" by simp
qed

theorem fatal_fields_witness:
  "re_search account_pattern ''Account: 12345'' \<noteq> None
   \<and> extract_cpt_codes ''Account: 12345'' \<noteq> []
   \<and> extract_patient_name ''Account: 12345'' = []
   \<and> extract_date_of_service ''Account: 12345'' = []
   \<and> (\<exists>r. parse_block ''Account: 12345'' = Some r \<and> patient_name r = [] \<and> date_of_service r = [])"
proof -
  have a: "re_search account_pattern ''Account: 12345'' \<noteq> None"
    by code_simp
  have c: "extract_cpt_codes ''Account: 12345'' \<noteq> []"
    by code_simp
  have n: "extract_patient_name ''Account: 12345'' = []"
    by code_simp
  have d: "extract_date_of_service ''Account: 12345'' = []"
    by code_simp
  from fatal_fields [of "''Account: 12345''"] a c n d show ?thesis
    by simp
qed

text \<open>
  The claim as it was stated fails on a block that has an account number, a patient
  name and a date but no CPT code: no row is produced.
\<close>

theorem fatal_fields_counterexample:
  "re_search account_pattern ''Account: 1234 JO DOE 01/02/2020'' \<noteq> None
   \<and> extract_patient_name ''Account: 1234 JO DOE 01/02/2020'' = ''Jo Doe''
   \<and> extract_date_of_service ''Account: 1234 JO DOE 01/02/2020'' = ''01/02/2020''
   \<and> extract_cpt_codes ''Account: 1234 JO DOE 01/02/2020'' = []
   \<and> parse_block ''Account: 1234 JO DOE 01/02/2020'' = None"
  by code_simp

section \<open>Text without any marker\<close>

text \<open>
  C8. A text in which \<^verbatim>\<open>Account:\<close> does not occur gives an empty table and the
  warning that no valid data was extracted, unless the text is empty or all whitespace,
  in which case the run stops before with the error that no text was found; the two
  messages are different.
\<close>

theorem no_marker_no_data:
  "\<not> sublist ''Account:'' full_text \<Longrightarrow>
     run full_text = (if strip full_text = [] then (Error_no_text, None)
                      else (Warning_no_data, Some []))
     \<and> Warning_no_data \<noteq> Error_no_text"
proof -
  assume n: "\<not> sublist ''Account:'' full_text"
  then have nm: "\<forall>u v. full_text = u @ v \<longrightarrow> \<not> marker_at v"
    using marker_at_sublist by blast
  then have "blocks_of full_text = [full_text]"
    by (simp add: blocks_of_cut cut_no_marker)
  moreover from nm have "re_search account_pattern full_text = None"
    by (simp add: re_search_account_None)
  ultimately have "records_of full_text = []"
    by (simp add: records_of_def parse_block_def)
  then show ?thesis by (simp add: run_def drop_duplicates_def)
qed

theorem no_marker_no_data_witness:
  "\<not> sublist ''Account:'' ''JO DOE 99213''
   \<and> run ''JO DOE 99213'' = (Warning_no_data, Some [])
   \<and> run ''  '' = (Error_no_text, None)"
proof -
  have a: "\<not> sublist ''Account:'' ''JO DOE 99213''"
    by code_simp
  have b: "\<not> sublist ''Account:'' ''  ''"
    by code_simp
  have c: "strip ''JO DOE 99213'' \<noteq> []"
    by code_simp
  have d: "strip ''  '' = []"
    by code_simp
  from no_marker_no_data [OF a] no_marker_no_data [OF b] a c d show ?thesis
    by simp
qed

section \<open>The segmenter\<close>

lemma digit_not_space: "is_digit c \<Longrightarrow> \<not> is_space c"
  by (auto simp: is_digit_def is_space_def)

lemma search_hit: "matches r p s = (m, rest, cs) # ys \<Longrightarrow> search r False p s = Some ([], m, rest, cs)"
  by (cases s) simp_all

lemma five_digit_marker:
  assumes ws: "\<forall>c\<in>set ws. is_space c" and len: "length ds = 5" and ds: "\<forall>c\<in>set ds. is_digit c"
  shows "marker_at (''Account:'' @ ws @ ds @ rest)"
    and "account_digits (''Account:'' @ ws @ ds @ rest) = ds"
proof -
  from len obtain d ds' where d: "ds = d # ds'" by (cases ds) auto
  with ds have nd: "\<not> is_space d" by (simp add: digit_not_space)
  have dw: "dropWhile is_space (ws @ ds @ rest) = ds @ rest"
    using ws nd d by (simp add: dropWhile_append)
  have tw: "takeWhile is_digit (ds @ rest) = ds @ takeWhile is_digit rest"
    using ds by (simp add: takeWhile_append)
  show "marker_at (''Account:'' @ ws @ ds @ rest)"
    using len by (simp add: marker_at_def dw tw)
  show "account_digits (''Account:'' @ ws @ ds @ rest) = ds"
    using len by (simp add: account_digits_def dw tw)
qed

lemma five_digit_account:
  assumes ws: "\<forall>c\<in>set ws. is_space c" and len: "length ds = 5" and ds: "\<forall>c\<in>set ds. is_digit c"
  shows "map_option group1 (re_search account_pattern (''Account:'' @ ws @ ds @ rest)) = Some ds"
proof -
  let ?s = "''Account:'' @ ws @ ds @ rest"
  from five_digit_marker [OF assms] have m: "marker_at ?s" and a: "account_digits ?s = ds" by blast+
  from matches_account_hd [OF m, of None] obtain mt rs ys where
    "matches account_pattern None ?s = (mt, rs, [account_digits ?s]) # ys" by blast
  then have "re_search account_pattern ?s = Some ([], mt, rs, [account_digits ?s])"
    unfolding re_search_def by (rule search_hit)
  with a show ?thesis by (simp add: group1_def)
qed

lemma hd_blocks:
  "\<exists>rest. t = hd (cut_at_markers [] t) @ rest \<and> (rest = [] \<or> marker_at rest)
     \<and> (\<forall>u v. hd (cut_at_markers [] t) = u @ v \<and> v \<noteq> [] \<longrightarrow> \<not> marker_at (v @ rest))"
  using cut_head [of t "[]"] by auto

text \<open>
  C7. The split pattern matches exactly at the positions where a marker begins
  (\<^verbatim>\<open>Account:\<close>, optional whitespace, four digits). The blocks are the text cut
  before every such position: put together they give the text back, so nothing is
  consumed; there is one block more than there are marker positions; every block but
  the first starts with a marker of its own; the first block is the text before the
  first marker, kept even when empty, and no marker begins inside it. A marker followed
  by a fifth digit is a marker all the same, and the account pattern reads all five
  digits at it.
\<close>

theorem segmenter_cuts_before_every_marker:
  "(\<forall>p s. matches split_pattern p s \<noteq> [] \<longleftrightarrow> marker_at s)
   \<and> blocks_of t = cut_at_markers [] t
   \<and> concat (blocks_of t) = t
   \<and> length (blocks_of t) = Suc (length (filter marker_at (suffixes t)))
   \<and> (\<forall>i. 0 < i \<and> i < length (blocks_of t) \<longrightarrow> marker_at (blocks_of t ! i))
   \<and> (\<exists>rest. t = hd (blocks_of t) @ rest \<and> (rest = [] \<or> marker_at rest)
         \<and> (\<forall>u v. hd (blocks_of t) = u @ v \<and> v \<noteq> [] \<longrightarrow> \<not> marker_at (v @ rest)))
   \<and> (\<forall>ws ds rest. (\<forall>c\<in>set ws. is_space c) \<and> length ds = 5 \<and> (\<forall>c\<in>set ds. is_digit c) \<longrightarrow>
         marker_at (''Account:'' @ ws @ ds @ rest)
         \<and> map_option group1 (re_search account_pattern (''Account:'' @ ws @ ds @ rest)) = Some ds)"
proof (intro conjI allI impI)
  fix p s show "matches split_pattern p s \<noteq> [] \<longleftrightarrow> marker_at s"
    by (simp add: matches_split_pattern del: matches.simps)
next
  show "blocks_of t = cut_at_markers [] t" by (rule blocks_of_cut)
next
  show "concat (blocks_of t) = t" by (simp add: blocks_of_cut concat_cut)
next
  show "length (blocks_of t) = Suc (length (filter marker_at (suffixes t)))"
    by (simp add: blocks_of_cut length_cut)
next
  fix i assume i: "0 < i \<and> i < length (blocks_of t)"
  then have "blocks_of t ! i \<in> set (tl (blocks_of t))"
    by (cases "blocks_of t"; cases i) auto
  then show "marker_at (blocks_of t ! i)"
    unfolding blocks_of_cut by (rule cut_tail_markers)
next
  show "\<exists>rest. t = hd (blocks_of t) @ rest \<and> (rest = [] \<or> marker_at rest)
         \<and> (\<forall>u v. hd (blocks_of t) = u @ v \<and> v \<noteq> [] \<longrightarrow> \<not> marker_at (v @ rest))"
    unfolding blocks_of_cut by (rule hd_blocks)
next
  fix ws ds rest
  assume "(\<forall>c\<in>set ws. is_space c) \<and> length ds = 5 \<and> (\<forall>c\<in>set ds. is_digit c)"
  then have "\<forall>c\<in>set ws. is_space c" "length ds = 5" "\<forall>c\<in>set ds. is_digit c" by simp_all
  then show "marker_at (''Account:'' @ ws @ ds @ rest)"
    by (rule five_digit_marker(1))
next
  fix ws ds rest
  assume "(\<forall>c\<in>set ws. is_space c) \<and> length ds = 5 \<and> (\<forall>c\<in>set ds. is_digit c)"
  then have "\<forall>c\<in>set ws. is_space c" "length ds = 5" "\<forall>c\<in>set ds. is_digit c" by simp_all
  then show "map_option group1 (re_search account_pattern (''Account:'' @ ws @ ds @ rest)) = Some ds"
    by (rule five_digit_account)
qed

theorem segmenter_cuts_before_every_marker_witness:
  "blocks_of ''x Account: 12345 y Account:6789'' = [''x '', ''Account: 12345 y '', ''Account:6789'']
   \<and> concat [''x '', ''Account: 12345 y '', ''Account:6789''] = ''x Account: 12345 y Account:6789''
   \<and> marker_at ''Account: 12345 y ''
   \<and> map_option group1 (re_search account_pattern (''Account:'' @ '' '' @ ''12345'' @ '' y '')) = Some ''12345''"
proof -
  let ?t = "''x Account: 12345 y Account:6789''"
  have b: "blocks_of ?t = [''x '', ''Account: 12345 y '', ''Account:6789'']"
    by code_simp
  have h: "(\<forall>c\<in>set '' ''. is_space c) \<and> length ''12345'' = 5 \<and> (\<forall>c\<in>set ''12345''. is_digit c)"
    by code_simp
  from segmenter_cuts_before_every_marker [of ?t]
  have 1: "concat (blocks_of ?t) = ?t"
    and 2: "\<forall>i. 0 < i \<and> i < length (blocks_of ?t) \<longrightarrow> marker_at (blocks_of ?t ! i)"
    and 3: "\<forall>ws ds rest. (\<forall>c\<in>set ws. is_space c) \<and> length ds = 5 \<and> (\<forall>c\<in>set ds. is_digit c) \<longrightarrow>
         marker_at (''Account:'' @ ws @ ds @ rest)
         \<and> map_option group1 (re_search account_pattern (''Account:'' @ ws @ ds @ rest)) = Some ds"
    by blast+
  from 2 [rule_format, of 1] b have "marker_at ''Account: 12345 y ''" by simp
  moreover from 3 [rule_format, OF h, of "'' y ''"]
  have "map_option group1 (re_search account_pattern (''Account:'' @ '' '' @ ''12345'' @ '' y '')) = Some ''12345''"
    by blast
  ultimately show ?thesis using 1 b by simp
qed

section \<open>The patient name\<close>

lemma max_len_from_cases:
  "(max_len_from b xs = b \<and> (\<forall>y\<in>set xs. length y \<le> length b))
   \<or> (\<exists>us vs. xs = us @ max_len_from b xs # vs
         \<and> (\<forall>y\<in>set (b # us). length y < length (max_len_from b xs))
         \<and> (\<forall>y\<in>set vs. length y \<le> length (max_len_from b xs)))"
proof (induction xs arbitrary: b)
  case Nil
  show ?case by simp
next
  case (Cons x xs)
  let ?b = "if length b < length x then x else b"
  let ?r = "max_len_from ?b xs"
  have r: "max_len_from b (x # xs) = ?r" by simp
  from Cons.IH [of ?b] consider
      (keep) "?r = ?b" "\<forall>y\<in>set xs. length y \<le> length ?b"
    | (later) us vs where "xs = us @ ?r # vs" "\<forall>y\<in>set (?b # us). length y < length ?r"
        "\<forall>y\<in>set vs. length y \<le> length ?r"
    by blast
  then show ?case
  proof cases
    case keep
    show ?thesis
    proof (cases "length b < length x")
      case True
      with keep have "x # xs = [] @ max_len_from b (x # xs) # xs
         \<and> (\<forall>y\<in>set (b # []). length y < length (max_len_from b (x # xs)))
         \<and> (\<forall>y\<in>set xs. length y \<le> length (max_len_from b (x # xs)))" by simp
      then show ?thesis by blast
    next
      case False
      with keep show ?thesis by auto
    qed
  next
    case later
    from later(2) have "\<forall>y\<in>set (b # x # us). length y < length ?r"
      by (auto split: if_splits)
    with later have "x # xs = (x # us) @ max_len_from b (x # xs) # vs
         \<and> (\<forall>y\<in>set (b # (x # us)). length y < length (max_len_from b (x # xs)))
         \<and> (\<forall>y\<in>set vs. length y \<le> length (max_len_from b (x # xs)))"
      unfolding r by simp
    then show ?thesis by blast
  qed
qed

lemma find_first:
  "(\<forall>a\<in>set as. \<not> P a) \<Longrightarrow> P r \<Longrightarrow> find P (as @ r # vs) = Some r"
  by (induction as) auto

lemma max_len_first_longest: "max_len xs = first_longest xs"
proof (cases xs)
  case Nil
  then show ?thesis by (simp add: max_len_def first_longest_def)
next
  case (Cons b ys)
  let ?r = "max_len_from b ys"
  let ?P = "\<lambda>x. \<forall>y\<in>set (b # ys). length y \<le> length x"
  from max_len_from_cases [of b ys] consider
      (keep) "?r = b" "\<forall>y\<in>set ys. length y \<le> length b"
    | (later) us vs where "ys = us @ ?r # vs" "\<forall>y\<in>set (b # us). length y < length ?r"
        "\<forall>y\<in>set vs. length y \<le> length ?r"
    by blast
  then have F: "find ?P (b # ys) = Some ?r"
  proof cases
    case keep
    then have "?P b" by simp
    then have "find ?P ([] @ b # ys) = Some b"
      by (intro find_first) simp_all
    with keep show ?thesis by simp
  next
    case later
    have mem: "?r \<in> set (b # ys)" by (subst (2) later(1)) simp
    have no: "\<forall>a\<in>set (b # us). \<not> ?P a"
    proof
      fix a assume "a \<in> set (b # us)"
      with later(2) have "length a < length ?r" by blast
      with mem show "\<not> ?P a" by (meson not_less)
    qed
    have yes: "?P ?r"
    proof
      fix y assume "y \<in> set (b # ys)"
      then have "y \<in> set (b # us) \<or> y = ?r \<or> y \<in> set vs" by (subst (asm) later(1)) auto
      with later(2,3) show "length y \<le> length ?r" by (auto simp: less_imp_le)
    qed
    have L: "(b # us) @ ?r # vs = b # ys" by (subst (2) later(1)) simp
    from no yes have "find ?P ((b # us) @ ?r # vs) = Some ?r" by (rule find_first)
    then show ?thesis by (simp only: L)
  qed
  show ?thesis unfolding max_len_def first_longest_def Cons F by simp
qed

text \<open>
  C4, as amended. The patient name is extracted in two tiers, the second only when the
  first yields nothing. Tier 1 takes the uppercase runs, drops every run that has an
  ignore-listed token or fewer than two tokens, strips the surviving runs of surrounding
  whitespace, and returns, in title case, the first of the stripped runs whose length is
  maximal. When no run survives, tier 2 takes the mixed-case matches, drops those with a
  token whose upper-case form is ignore-listed, and returns the first of maximal length,
  stripped. When neither tier has a survivor the result is the empty string.
\<close>

theorem patient_name_two_tiers:
  "extract_patient_name block =
     (case first_longest (map strip (filter keeps_upper (upper_names block))) of
        Some n \<Rightarrow> title n
      | None \<Rightarrow>
          (case first_longest (filter keeps_mixed (mixed_names block)) of
             Some m \<Rightarrow> strip m
           | None \<Rightarrow> []))
   \<and> (\<forall>n. keeps_upper n \<longleftrightarrow>
          (\<forall>w\<in>set (split_ws n). w \<notin> set ignore_words_local) \<and> 2 \<le> length (split_ws n))
   \<and> (\<forall>m. keeps_mixed m \<longleftrightarrow> (\<forall>w\<in>set (split_ws m). upper w \<notin> set ignore_words_local))"
  by (simp add: extract_patient_name_def clean_upper_def mixed_clean_def max_len_first_longest
      keeps_upper_def keeps_mixed_def split: option.splits)

theorem patient_name_two_tiers_witness:
  "first_longest (map strip (filter keeps_upper (upper_names ''x    AB CD x ABC DEF''))) = Some ''ABC DEF''
   \<and> extract_patient_name ''x    AB CD x ABC DEF'' = ''Abc Def''"
proof -
  have a: "first_longest (map strip (filter keeps_upper (upper_names ''x    AB CD x ABC DEF''))) = Some ''ABC DEF''"
    by code_simp
  have t: "title ''ABC DEF'' = ''Abc Def''"
    by code_simp
  from patient_name_two_tiers [of "''x    AB CD x ABC DEF''"] a t show ?thesis
    by simp
qed

text \<open>
  The claim as it was stated measures and returns the surviving runs as they were
  matched. A run can start and end with spaces, and the code strips it before it
  compares lengths: here the longest surviving run is not the one returned.
\<close>

theorem patient_name_two_tiers_counterexample:
  "map_option title (first_longest (filter keeps_upper (upper_names ''x    AB CD x ABC DEF'')))
     = Some ''    Ab Cd ''
   \<and> extract_patient_name ''x    AB CD x ABC DEF'' = ''Abc Def''"
  by code_simp

text \<open>
  C10, as amended. The ignore list consulted is the one bound inside
  \<^verbatim>\<open>extract_patient_name\<close>, which has GENESISC, NOT, USE, BCBS and FBU and has neither
  YES nor NO; the module-level list, which has YES and NO, is not consulted. So an
  uppercase run with no token in the local list, and with at least two tokens, is kept
  as a tier-1 candidate, also when YES or NO is among its tokens.
\<close>

theorem local_ignore_list_consulted:
  "(n \<in> set (upper_names block) \<and> (\<forall>w\<in>set (split_ws n). w \<notin> set ignore_words_local)
      \<and> 2 \<le> length (split_ws n) \<longrightarrow> strip n \<in> set (clean_upper block))
   \<and> ''YES'' \<in> set ignore_words \<and> ''NO'' \<in> set ignore_words
   \<and> ''YES'' \<notin> set ignore_words_local \<and> ''NO'' \<notin> set ignore_words_local
   \<and> set [''GENESISC'', ''NOT'', ''USE'', ''BCBS'', ''FBU''] \<subseteq> set ignore_words_local"
proof -
  have "n \<in> set (upper_names block) \<and> (\<forall>w\<in>set (split_ws n). w \<notin> set ignore_words_local)
      \<and> 2 \<le> length (split_ws n) \<longrightarrow> strip n \<in> set (clean_upper block)"
    by (auto simp: clean_upper_def keeps_upper_def)
  moreover have "''YES'' \<in> set ignore_words \<and> ''NO'' \<in> set ignore_words"
    by (simp add: ignore_words_def)
  moreover have "''YES'' \<notin> set ignore_words_local \<and> ''NO'' \<notin> set ignore_words_local"
    by (simp add: ignore_words_local_def)
  moreover have "set [''GENESISC'', ''NOT'', ''USE'', ''BCBS'', ''FBU''] \<subseteq> set ignore_words_local"
    by (simp add: ignore_words_local_def)
  ultimately show ?thesis by blast
qed

theorem local_ignore_list_consulted_witness:
  "upper_names ''YES NO'' = [''YES NO''] \<and> split_ws ''YES NO'' = [''YES'', ''NO'']
   \<and> strip ''YES NO'' \<in> set (clean_upper ''YES NO'')
   \<and> extract_patient_name ''YES NO'' = ''Yes No''"
proof -
  have u: "upper_names ''YES NO'' = [''YES NO'']"
    by code_simp
  have w: "split_ws ''YES NO'' = [''YES'', ''NO'']"
    by code_simp
  have i: "''YES'' \<notin> set ignore_words_local \<and> ''NO'' \<notin> set ignore_words_local"
    by code_simp
  have e: "extract_patient_name ''YES NO'' = ''Yes No''"
    by code_simp
  from local_ignore_list_consulted [of "''YES NO''" "''YES NO''"] u w i
  have "strip ''YES NO'' \<in> set (clean_upper ''YES NO'')" by simp
  with u w e show ?thesis by simp
qed

text \<open>
  The claim as it was stated fails on a run whose only token is YES: it has no token of
  the local list, and it is discarded all the same, by the rule on the number of tokens.
\<close>

theorem local_ignore_list_consulted_counterexample:
  "upper_names ''x YES x'' = ['' YES ''] \<and> split_ws '' YES '' = [''YES'']
   \<and> ''YES'' \<notin> set ignore_words_local
   \<and> clean_upper ''x YES x'' = []"
  by code_simp

section \<open>The CPT codes\<close>

lemma matches_Seq_WordB:
  "matches (Seq WordB b) p s = (if word_opt p \<noteq> word_opt (next_char s) then matches b p s else [])"
proof -
  have "then_match (matches b) p ([], s, []) = matches b p s"
    by (simp add: then_match_simp last_char_def)
  then show ?thesis by simp
qed

lemma matches_Seq_times:
  "matches (Seq (Rep (Cls P) n (Some n) True) b) p s =
     (if n \<le> length (takeWhile P s) then then_match (matches b) p (take n s, drop n s, []) else [])"
proof -
  have "matches (Seq (Rep (Cls P) n (Some n) True) b) p s =
     concat (map (then_match (matches b) p) (matches (Rep (Cls P) n (Some n) True) p s))"
    by simp
  then show ?thesis unfolding matches_times by simp
qed

lemma digit_word: "is_digit c \<Longrightarrow> is_word c"
  by (simp add: is_word_def)

lemma modifier_word: "is_modifier c \<Longrightarrow> is_word c"
  by (auto simp: is_word_def is_modifier_def)

lemma takeWhile_take_all: "n \<le> length (takeWhile P s) \<Longrightarrow> \<forall>c\<in>set (take n s). P c"
proof
  fix c assume n: "n \<le> length (takeWhile P s)" and c: "c \<in> set (take n s)"
  have "takeWhile P s = take (length (takeWhile P s)) s" by (rule takeWhile_eq_take)
  then have "take n (takeWhile P s) = take n (take (length (takeWhile P s)) s)" by (rule arg_cong)
  also have "\<dots> = take n s" using n by (simp add: min_def)
  finally have "take n s = take n (takeWhile P s)" by (rule sym)
  with c have "c \<in> set (takeWhile P s)" by (auto dest: in_set_takeD)
  then show "P c" by (rule set_takeWhileD [THEN conjunct2])
qed

lemma takeWhile_take_last:
  assumes "n \<le> length (takeWhile P s)" "0 < n"
  shows "take n s \<noteq> [] \<and> P (last (take n s))"
proof -
  from assms have "n \<le> length s" using length_takeWhile_le [of P s] by simp
  with assms(2) have ne: "take n s \<noteq> []" by auto
  then have "last (take n s) \<in> set (take n s)" by (rule last_in_set)
  with takeWhile_take_all [OF assms(1)] ne show ?thesis by blast
qed

lemma matches_modifier:
  "matches (Seq (Lit ''-'') (Rep (Cls is_modifier) 2 (Some 2) True)) q t =
     (if prefix ''-'' t \<and> 2 \<le> length (takeWhile is_modifier (drop 1 t))
      then [(take 3 t, drop 3 t, [])] else [])"
proof (cases "prefix ''-'' t \<and> 2 \<le> length (takeWhile is_modifier (drop 1 t))")
  case True
  then obtain t' where t: "t = CHR ''-'' # t'" by (auto simp: prefix_def)
  with True show ?thesis
    unfolding matches_Seq_Lit then_match_simp matches_times by simp
next
  case False
  then show ?thesis
    unfolding matches_Seq_Lit then_match_simp matches_times by auto
qed

lemma matches_opt_modifier_WordB:
  "matches (Seq (Rep (Seq (Lit ''-'') (Rep (Cls is_modifier) 2 (Some 2) True)) 0 (Some 1) True) WordB) q t =
     (if modifier_follows t then [(take 3 t, drop 3 t, [])] else [])
     @ (if word_opt q \<noteq> word_opt (next_char t) then [([], t, [])] else [])"
proof -
  let ?G = "Seq (Lit ''-'') (Rep (Cls is_modifier) 2 (Some 2) True)"
  let ?c = "prefix ''-'' t \<and> 2 \<le> length (takeWhile is_modifier (drop 1 t))"
  have short: "then_match (matches WordB) q ([], t, []) =
      (if word_opt q \<noteq> word_opt (next_char t) then [([], t, [])] else [])"
    by (simp add: then_match_simp last_char_def)
  show ?thesis
  proof (cases ?c)
    case True
    then obtain t' where t: "t = CHR ''-'' # t'" by (auto simp: prefix_def)
    from True t have two: "2 \<le> length (takeWhile is_modifier t')" by simp
    then have "2 \<le> length t'" using length_takeWhile_le [of is_modifier t'] by linarith
    then have ne: "take 3 t \<noteq> []" and lst: "last (take 3 t) = last (take 2 t')"
      using t by (auto simp: take_Suc_conv_app_nth numeral_3_eq_3 numeral_2_eq_2)
    from takeWhile_take_last [OF two] have "is_modifier (last (take 2 t'))" by simp
    with lst have w: "word_opt (last_char q (take 3 t))"
      using ne by (simp add: last_char_def word_opt_def modifier_word)
    have long: "then_match (matches WordB) q (take 3 t, drop 3 t, []) =
      (if \<not> word_opt (next_char (drop 3 t)) then [(take 3 t, drop 3 t, [])] else [])"
      using w by (simp add: then_match_simp)
    have "matches (Rep ?G 0 (Some 1) True) q t = [(take 3 t, drop 3 t, []), ([], t, [])]"
      unfolding matches_opt matches_modifier using True ne by simp
    then have "matches (Seq (Rep ?G 0 (Some 1) True) WordB) q t =
       then_match (matches WordB) q (take 3 t, drop 3 t, []) @ then_match (matches WordB) q ([], t, [])"
      by simp
    with True show ?thesis unfolding long short by (simp add: modifier_follows_def)
  next
    case False
    then have "matches (Rep ?G 0 (Some 1) True) q t = [([], t, [])]"
      unfolding matches_opt matches_modifier by simp
    then have "matches (Seq (Rep ?G 0 (Some 1) True) WordB) q t =
       then_match (matches WordB) q ([], t, [])"
      by simp
    with False show ?thesis unfolding short by (auto simp: modifier_follows_def)
  qed
qed

lemma matches_cpt:
  "matches cpt_pattern p s =
     (if \<not> word_opt p \<and> 5 \<le> length (takeWhile is_digit s)
      then (if modifier_follows (drop 5 s) then [(take 8 s, drop 8 s, [])] else [])
           @ (if \<not> word_opt (next_char (drop 5 s)) then [(take 5 s, drop 5 s, [])] else [])
      else [])"
proof (cases "5 \<le> length (takeWhile is_digit s)")
  case False
  then show ?thesis
    unfolding cpt_pattern_def matches_Seq_WordB matches_Seq_times by simp
next
  case True
  from takeWhile_take_last [OF True] have d: "take 5 s \<noteq> []" "is_digit (last (take 5 s))" by simp_all
  then have w: "word_opt (last_char p (take 5 s))"
    by (simp add: last_char_def word_opt_def digit_word)
  from True have len: "5 \<le> length s" using length_takeWhile_le [of is_digit s] by linarith
  then obtain c s' where s: "s = c # s'" by (cases s) auto
  with True have "is_digit c" by (cases "is_digit c") auto
  with s have ws: "word_opt (next_char s)" by (simp add: next_char_def word_opt_def digit_word)
  have t3: "take 5 s @ take 3 (drop 5 s) = take 8 s"
    using take_add [of 5 3 s] by simp
  have d3: "drop 3 (drop 5 s) = drop 8 s" by simp
  have "then_match (matches (Seq (Rep (Seq (Lit ''-'') (Rep (Cls is_modifier) 2 (Some 2) True)) 0 (Some 1) True) WordB))
           p (take 5 s, drop 5 s, []) =
         (if modifier_follows (drop 5 s) then [(take 8 s, drop 8 s, [])] else [])
           @ (if \<not> word_opt (next_char (drop 5 s)) then [(take 5 s, drop 5 s, [])] else [])"
    unfolding then_match_simp matches_opt_modifier_WordB using w by (simp add: t3)
  with True ws show ?thesis
    unfolding cpt_pattern_def matches_Seq_WordB matches_Seq_times by simp
qed

lemma last_char_append: "last_char (last_char p a) b = last_char p (a @ b)"
  by (simp add: last_char_def)

lemma scan_finds:
  assumes hit: "matches r (last_char p u) w = (m, rest, cs) # ys"
      and before: "\<And>u1 u2 m' rest' cs'. u = u1 @ u2 \<Longrightarrow> u2 \<noteq> [] \<Longrightarrow>
                     (m', rest', cs') \<in> set (matches r (last_char p u1) (u2 @ w)) \<Longrightarrow>
                     m' \<noteq> [] \<and> length m' \<le> length u2"
  shows "m \<in> snd ` set (fst (scan r False p (u @ w)))"
  using assms
proof (induction "length u" arbitrary: u p rule: less_induct)
  case less
  note hit = less.prems(1) and before = less.prems(2)
  have "search r False p (u @ w) \<noteq> None"
  proof
    assume "search r False p (u @ w) = None"
    then have "matches r (last_char p u) w = []"
      unfolding search_False_None_iff by blast
    with hit show False by simp
  qed
  then obtain pre m1 rest1 cs1 where S: "search r False p (u @ w) = Some (pre, m1, rest1, cs1)"
    by (cases "search r False p (u @ w)") auto
  then have eq: "u @ w = pre @ m1 @ rest1"
    and hd: "\<exists>ys. matches r (last_char p pre) (m1 @ rest1) = (m1, rest1, cs1) # ys"
    and nobefore: "\<forall>a b. pre = a @ b \<and> b \<noteq> [] \<longrightarrow> matches r (last_char p a) (b @ m1 @ rest1) = []"
    unfolding search_False_iff by blast+
  have "\<exists>u2. u = pre @ u2 \<and> u2 @ w = m1 @ rest1"
  proof -
    from eq obtain us where "(u = pre @ us \<and> us @ w = m1 @ rest1) \<or> (u @ us = pre \<and> w = us @ m1 @ rest1)"
      unfolding append_eq_append_conv2 by blast
    then show ?thesis
    proof
      assume "u = pre @ us \<and> us @ w = m1 @ rest1"
      then show ?thesis by blast
    next
      assume b: "u @ us = pre \<and> w = us @ m1 @ rest1"
      show ?thesis
      proof (cases "us = []")
        case True
        with b have "u = pre @ [] \<and> [] @ w = m1 @ rest1" by simp
        then show ?thesis by blast
      next
        case False
        with b nobefore have "matches r (last_char p u) (us @ m1 @ rest1) = []" by blast
        with b hit show ?thesis by simp
      qed
    qed
  qed
  then obtain u2 where u: "u = pre @ u2" and u2: "u2 @ w = m1 @ rest1" by blast
  obtain items e where rec: "scan r (m1 = []) (last_char p (pre @ m1)) rest1 = (items, e)"
    by (cases "scan r (m1 = []) (last_char p (pre @ m1)) rest1")
  have sc: "scan r False p (u @ w) = ((pre, m1) # items, e)"
    by (subst scan.simps) (simp add: S rec del: search.simps)
  show ?case
  proof (cases "u2 = []")
    case True
    with u u2 hd hit have "m1 = m" by auto
    then show ?thesis by (simp add: sc)
  next
    case False
    from hd u2 have "(m1, rest1, cs1) \<in> set (matches r (last_char p pre) (u2 @ w))" by auto
    from before [OF u False this] have m1: "m1 \<noteq> []" and le: "length m1 \<le> length u2" by simp_all
    from u2 le obtain u3 where u3: "u2 = m1 @ u3" "rest1 = u3 @ w"
      by (auto simp: append_eq_append_conv2)
    let ?p = "last_char p (pre @ m1)"
    have len: "length u3 < length u" using u u3 m1 by simp
    have hit': "matches r (last_char ?p u3) w = (m, rest, cs) # ys"
      using hit u u3 by (simp add: last_char_append)
    have before': "m' \<noteq> [] \<and> length m' \<le> length v2"
      if "u3 = v1 @ v2" "v2 \<noteq> []" "(m', rest', cs') \<in> set (matches r (last_char ?p v1) (v2 @ w))"
      for v1 v2 m' rest' cs'
    proof -
      from that(1) u u3 have "u = (pre @ m1 @ v1) @ v2" by simp
      moreover from that(3) have "(m', rest', cs') \<in> set (matches r (last_char p (pre @ m1 @ v1)) (v2 @ w))"
        by (simp add: last_char_append)
      ultimately show ?thesis using that(2) before by blast
    qed
    have "m \<in> snd ` set (fst (scan r False ?p (u3 @ w)))"
    proof (rule less.hyps [OF len hit'])
      fix v1 v2 m' rest' cs'
      assume "u3 = v1 @ v2" "v2 \<noteq> []"
        "(m', rest', cs') \<in> set (matches r (last_char ?p v1) (v2 @ w))"
      then show "m' \<noteq> [] \<and> length m' \<le> length v2" by (rule before')
    qed
    with rec m1 u3 show ?thesis by (simp add: sc)
  qed
qed

lemma filter_Cons_mem: "filter P xs = x # ys \<Longrightarrow> x \<in> set xs"
proof -
  assume "filter P xs = x # ys"
  then have "x \<in> set (filter P xs)" by simp
  then show ?thesis by simp
qed

lemma search_Some_matches:
  "search r adv p s = Some (pre, m, rest, cs) \<Longrightarrow> \<exists>q t. (m, rest, cs) \<in> set (matches r q t)"
proof (induction s arbitrary: adv p pre)
  case Nil
  let ?xs = "if adv then filter (\<lambda>x. fst x \<noteq> []) (matches r p []) else matches r p []"
  from Nil obtain zs where "?xs = (m, rest, cs) # zs" by (auto split: list.splits)
  then have "(m, rest, cs) \<in> set (matches r p [])"
    by (cases adv) (auto dest: filter_Cons_mem)
  then show ?case by blast
next
  case (Cons c s)
  let ?xs = "if adv then filter (\<lambda>x. fst x \<noteq> []) (matches r p (c # s)) else matches r p (c # s)"
  show ?case
  proof (cases ?xs)
    case Nil
    with Cons.prems obtain pre' where "search r False (Some c) s = Some (pre', m, rest, cs)"
      by (auto split: option.splits)
    then show ?thesis by (rule Cons.IH)
  next
    case (Cons x zs)
    with Cons.prems have "?xs = (m, rest, cs) # zs" by (auto split: prod.splits)
    then have "(m, rest, cs) \<in> set (matches r p (c # s))"
      by (cases adv) (auto dest: filter_Cons_mem)
    then show ?thesis by blast
  qed
qed

lemma scan_items_matches:
  "(pre, m) \<in> set (fst (scan r adv p s)) \<Longrightarrow> \<exists>q t rest cs. (m, rest, cs) \<in> set (matches r q t)"
proof (induction r adv p s rule: scan.induct)
  case (1 r adv p s)
  show ?case
  proof (cases "search r adv p s")
    case None
    with "1.prems" show ?thesis by (subst (asm) scan.simps) simp
  next
    case (Some f)
    obtain pre1 m1 rest1 cs1 where f: "f = (pre1, m1, rest1, cs1)" by (cases f)
    obtain items e where rec: "scan r (m1 = []) (last_char p (pre1 @ m1)) rest1 = (items, e)"
      by (cases "scan r (m1 = []) (last_char p (pre1 @ m1)) rest1")
    have sc: "scan r adv p s = ((pre1, m1) # items, e)"
      by (subst scan.simps) (simp add: Some f rec del: search.simps)
    from "1.prems" have "(pre, m) = (pre1, m1) \<or> (pre, m) \<in> set items"
      unfolding sc by simp
    then show ?thesis
    proof
      assume "(pre, m) = (pre1, m1)"
      moreover from Some f have "\<exists>q t. (m1, rest1, cs1) \<in> set (matches r q t)"
        using search_Some_matches [of r adv p s pre1 m1 rest1 cs1] by simp
      ultimately show ?thesis by blast
    next
      assume "(pre, m) \<in> set items"
      with "1.IH" [OF Some f [symmetric] refl refl] rec show ?thesis
        by simp
    qed
  qed
qed



lemma split_from_no_comma:
  "CHR '','' \<notin> set x \<Longrightarrow> split_from '', '' cur (x @ rest) = split_from '', '' (cur @ x) rest"
  by (induction x arbitrary: cur) auto

lemma split_join:
  "\<forall>x\<in>set (x0 # xs). CHR '','' \<notin> set x \<Longrightarrow>
     split_from '', '' cur (join '', '' (x0 # xs)) = (cur @ x0) # xs"
proof (induction xs arbitrary: cur x0)
  case Nil
  then have "split_from '', '' cur (x0 @ []) = split_from '', '' (cur @ x0) []"
    by (intro split_from_no_comma) simp
  then show ?case by simp
next
  case (Cons y ys)
  from Cons.prems have x0: "CHR '','' \<notin> set x0" and rest: "\<forall>x\<in>set (y # ys). CHR '','' \<notin> set x"
    by simp_all
  have "split_from '', '' cur (x0 @ '', '' @ join '', '' (y # ys))
      = split_from '', '' (cur @ x0) ('', '' @ join '', '' (y # ys))"
    using x0 by (rule split_from_no_comma)
  also have "\<dots> = (cur @ x0) # split_from '', '' [] (join '', '' (y # ys))"
    by simp
  also have "split_from '', '' [] (join '', '' (y # ys)) = ([] @ y) # ys"
    using rest by (rule Cons.IH)
  finally show ?case by simp
qed

lemma cpt_shape_chars: "cpt_shape c \<Longrightarrow> x \<in> set c \<Longrightarrow> is_alnum_ascii x \<or> x = CHR ''-''"
proof -
  assume s: "cpt_shape c" and x: "x \<in> set c"
  have d: "\<forall>y\<in>set (take 5 c). is_alnum_ascii y"
    using s by (auto simp: cpt_shape_def list_all_iff is_alnum_ascii_def)
  from s consider "length c = 5" | "length c = 8" "c ! 5 = CHR ''-''" "list_all is_alnum_ascii (drop 6 c)"
    by (auto simp: cpt_shape_def)
  then show ?thesis
  proof cases
    case 1
    with d x show ?thesis by simp
  next
    case 2
    then have "5 < length c" by simp
    then have E: "take 5 c @ c ! 5 # drop (Suc 5) c = c"
      by (rule id_take_nth_drop [symmetric])
    have "x \<in> set (take 5 c @ c ! 5 # drop (Suc 5) c)"
      unfolding E by (rule x)
    then have "x \<in> set (take 5 c) \<or> x = c ! 5 \<or> x \<in> set (drop 6 c)"
      by auto
    with d 2 show ?thesis by (auto simp: list_all_iff)
  qed
qed

lemma cpt_shape_no_comma: "cpt_shape c \<Longrightarrow> CHR '','' \<notin> set c"
proof
  assume "cpt_shape c" and "CHR '','' \<in> set c"
  then have "is_alnum_ascii CHR '','' \<or> CHR '','' = CHR ''-''" by (rule cpt_shape_chars)
  then show False
    by (simp add: is_alnum_ascii_def is_upper_def is_lower_def is_digit_def code_def)
qed

lemma cpt_shape_ne: "cpt_shape c \<Longrightarrow> c \<noteq> []"
  by (auto simp: cpt_shape_def)

lemma modifier_follows_length:
  "modifier_follows t \<Longrightarrow> 3 \<le> length t \<and> t ! 0 = CHR ''-'' \<and> is_modifier (t ! 1) \<and> is_modifier (t ! 2)"
proof -
  assume "modifier_follows t"
  then obtain t' where t: "t = CHR ''-'' # t'" and two: "2 \<le> length (takeWhile is_modifier t')"
    by (auto simp: modifier_follows_def prefix_def)
  from two have len: "2 \<le> length t'" using length_takeWhile_le [of is_modifier t'] by linarith
  from takeWhile_take_all [OF two] have "\<forall>c\<in>set (take 2 t'). is_modifier c" .
  moreover from len have "take 2 t' = [t' ! 0, t' ! 1]"
    by (cases t'; cases "tl t'") (auto simp: numeral_2_eq_2)
  ultimately show ?thesis using t len by simp
qed

lemma matches_cpt_shape:
  assumes "(m, rest, cs) \<in> set (matches cpt_pattern p s)"
  shows "cpt_shape m"
proof -
  from assms have five: "5 \<le> length (takeWhile is_digit s)"
    and m: "m = take 5 s \<or> (m = take 8 s \<and> modifier_follows (drop 5 s))"
    unfolding matches_cpt by (auto split: if_splits)
  from five have len: "5 \<le> length s" using length_takeWhile_le [of is_digit s] by linarith
  from takeWhile_take_all [OF five] have dig: "list_all is_digit (take 5 s)"
    by (simp add: list_all_iff)
  from m show ?thesis
  proof
    assume "m = take 5 s"
    with len dig show ?thesis by (simp add: cpt_shape_def)
  next
    assume a: "m = take 8 s \<and> modifier_follows (drop 5 s)"
    from modifier_follows_length [of "drop 5 s"] a
    have f: "3 \<le> length (drop 5 s)" "drop 5 s ! 0 = CHR ''-''"
      "is_modifier (drop 5 s ! 1)" "is_modifier (drop 5 s ! 2)" by blast+
    from f(1) have l8: "8 \<le> length s" by simp
    from f(2-4) l8 have h: "s ! 5 = CHR ''-''"
      and m1: "is_modifier (s ! 6)" and m2: "is_modifier (s ! 7)"
      by simp_all
    have "drop 6 (take 8 s) = take 2 (drop 6 s)" by (simp add: drop_take)
    also have "\<dots> = [s ! 6, s ! 7]"
      using l8 by (simp add: take_Suc_conv_app_nth numeral_2_eq_2 Cons_nth_drop_Suc [symmetric])
    finally have "list_all is_alnum_ascii (drop 6 (take 8 s))"
      using m1 m2 by (auto simp: is_alnum_ascii_def is_modifier_def)
    with a l8 h dig show ?thesis by (simp add: cpt_shape_def min_def)
  qed
qed

lemma findall_cpt_shape: "c \<in> set (findall cpt_pattern block) \<Longrightarrow> cpt_shape c"
proof -
  assume "c \<in> set (findall cpt_pattern block)"
  then obtain pre where "(pre, c) \<in> set (fst (scan cpt_pattern False None block))"
    by (auto simp: findall_def)
  from scan_items_matches [OF this] show ?thesis by (auto dest: matches_cpt_shape)
qed

lemma extract_cpt_codes_Nil_iff: "extract_cpt_codes block = [] \<longleftrightarrow> findall cpt_pattern block = []"
proof
  assume e: "extract_cpt_codes block = []"
  show "findall cpt_pattern block = []"
  proof (rule ccontr)
    assume ne: "findall cpt_pattern block \<noteq> []"
    let ?cs = "sorted_list_of_set (set (findall cpt_pattern block))"
    from ne have "set ?cs \<noteq> {}" by simp
    then obtain x xs where cs: "?cs = x # xs" by (cases ?cs) auto
    then have "x \<in> set (findall cpt_pattern block)"
      by (metis list.set_intros(1) set_sorted_list_of_set List.finite_set)
    then have "x \<noteq> []" by (auto dest: findall_cpt_shape cpt_shape_ne)
    then have "join '', '' (x # xs) \<noteq> []" by (cases xs) auto
    with e ne cs show False by (simp add: extract_cpt_codes_def)
  qed
next
  assume "findall cpt_pattern block = []"
  then show "extract_cpt_codes block = []" by (simp add: extract_cpt_codes_def)
qed

lemma split_extract_cpt_codes:
  assumes "extract_cpt_codes block \<noteq> []"
  shows "split_str '', '' (extract_cpt_codes block) = sorted_list_of_set (set (findall cpt_pattern block))"
proof -
  let ?cs = "sorted_list_of_set (set (findall cpt_pattern block))"
  from assms have ne: "findall cpt_pattern block \<noteq> []" by (simp add: extract_cpt_codes_Nil_iff)
  then have "set ?cs \<noteq> {}" by simp
  then obtain x xs where cs: "?cs = x # xs" by (cases ?cs) auto
  have "\<forall>c\<in>set ?cs. CHR '','' \<notin> set c"
    by (auto dest: findall_cpt_shape cpt_shape_no_comma)
  then have "split_from '', '' [] (join '', '' (x # xs)) = ([] @ x) # xs"
    unfolding cs by (rule split_join)
  with ne cs show ?thesis by (simp add: extract_cpt_codes_def split_str_def)
qed






section \<open>The account number among the CPT codes\<close>

lemma space_not_word: "is_space c \<Longrightarrow> \<not> is_word c"
  by (auto simp: is_space_def is_word_def is_digit_def is_upper_def is_lower_def)

lemma colon_not_word: "\<not> is_word CHR '':''"
  by (simp add: is_word_def is_digit_def is_upper_def is_lower_def code_def)

lemma space_not_alnum: "is_space c \<Longrightarrow> \<not> is_alnum_ascii c \<and> c \<noteq> CHR ''-''"
  by (auto simp: is_space_def is_alnum_ascii_def is_digit_def is_upper_def is_lower_def code_def)

lemma colon_not_alnum: "\<not> is_alnum_ascii CHR '':''"
  by (simp add: is_alnum_ascii_def is_digit_def is_upper_def is_lower_def code_def)

lemma account_digits_digits: "\<forall>c\<in>set (account_digits s). is_digit c"
  unfolding account_digits_def by (auto dest!: in_set_takeD dest: set_takeWhileD)

lemma last_marker_prefix:
  "(\<forall>c\<in>set ws. is_space c) \<Longrightarrow>
   last (pre @ ''Account:'' @ ws) = CHR '':'' \<or> is_space (last (pre @ ''Account:'' @ ws))"
  by (cases ws rule: rev_cases) auto

lemma cpt_match_stops_before:
  assumes m: "(m', rest', cs') \<in> set (matches cpt_pattern q (u2 @ w))"
      and u2: "u2 \<noteq> []"
      and l: "\<not> is_alnum_ascii (last u2)" "last u2 \<noteq> CHR ''-''"
  shows "m' \<noteq> [] \<and> length m' \<le> length u2"
proof -
  from m have sh: "cpt_shape m'" by (rule matches_cpt_shape)
  then have ne: "m' \<noteq> []" by (rule cpt_shape_ne)
  from m have eq: "u2 @ w = m' @ rest'" by (rule matches_sound)
  have "length m' \<le> length u2"
  proof (rule ccontr)
    assume "\<not> length m' \<le> length u2"
    then have lt: "length u2 - 1 < length m'" by simp
    from u2 have "last u2 = (u2 @ w) ! (length u2 - 1)"
      by (simp add: last_conv_nth nth_append)
    also have "\<dots> = m' ! (length u2 - 1)" unfolding eq using lt by (simp add: nth_append)
    finally have "last u2 \<in> set m'" using lt by simp
    with sh l show False by (auto dest: cpt_shape_chars)
  qed
  with ne show ?thesis by simp
qed

lemma account_number_is_cpt_code:
  assumes s: "re_search account_pattern block = Some (pre, m, rest, cs)"
      and len: "length (group1 (pre, m, rest, cs)) = 5"
      and nw: "\<not> word_opt (next_char rest)"
      and nm: "\<not> modifier_follows rest"
  shows "group1 (pre, m, rest, cs) \<in> set (findall cpt_pattern block)"
proof -
  define acc where "acc = account_digits (m @ rest)"
  define ws where "ws = takeWhile is_space (drop 8 (m @ rest))"
  define u where "u = pre @ ''Account:'' @ ws"
  from re_search_account_Some [OF s]
  have b: "block = pre @ m @ rest" and cs: "cs = [acc]"
    and m: "m = ''Account:'' @ ws @ acc" unfolding acc_def ws_def by blast+
  from cs have g: "group1 (pre, m, rest, cs) = acc" by (simp add: group1_def)
  with len have l5: "length acc = 5" by simp
  have dg: "\<forall>c\<in>set acc. is_digit c" unfolding acc_def by (rule account_digits_digits)
  have ws: "\<forall>c\<in>set ws. is_space c" unfolding ws_def by (auto dest: set_takeWhileD)
  have bl: "block = u @ acc @ rest" unfolding b m u_def by simp
  have une: "u \<noteq> []" unfolding u_def by simp
  from last_marker_prefix [OF ws, of pre]
  have lu: "last u = CHR '':'' \<or> is_space (last u)" unfolding u_def .
  have nwu: "\<not> is_word (last u)"
    using lu space_not_word [of "last u"] colon_not_word by auto
  have nau: "\<not> is_alnum_ascii (last u)" "last u \<noteq> CHR ''-''"
    using lu space_not_alnum [of "last u"] colon_not_alnum by auto
  have p: "\<not> word_opt (last_char None u)"
    using nwu une unfolding last_char_def word_opt_def by simp
  have tw: "takeWhile is_digit (acc @ rest) = acc @ takeWhile is_digit rest"
    using dg by (simp add: takeWhile_append)
  have hit: "matches cpt_pattern (last_char None u) (acc @ rest) = (acc, rest, []) # []"
    unfolding matches_cpt using p nw nm l5 by (simp add: tw)
  have "acc \<in> snd ` set (fst (scan cpt_pattern False None (u @ acc @ rest)))"
  proof (rule scan_finds [OF hit])
    fix u1 u2 m' rest' cs'
    assume u: "u = u1 @ u2" and u2: "u2 \<noteq> []"
      and mm: "(m', rest', cs') \<in> set (matches cpt_pattern (last_char None u1) (u2 @ acc @ rest))"
    from u u2 have "last u2 = last u" by simp
    with nau have "\<not> is_alnum_ascii (last u2)" "last u2 \<noteq> CHR ''-''" by simp_all
    with mm u2 show "m' \<noteq> [] \<and> length m' \<le> length u2" by (rule cpt_match_stops_before)
  qed
  then show ?thesis unfolding g findall_def bl by simp
qed

lemma account_number_with_modifier:
  assumes s: "re_search account_pattern block = Some (pre, m, rest, cs)"
      and len: "length (group1 (pre, m, rest, cs)) = 5"
      and nm: "modifier_follows rest"
  shows "group1 (pre, m, rest, cs) @ take 3 rest \<in> set (findall cpt_pattern block)"
proof -
  define acc where "acc = account_digits (m @ rest)"
  define ws where "ws = takeWhile is_space (drop 8 (m @ rest))"
  define u where "u = pre @ ''Account:'' @ ws"
  from re_search_account_Some [OF s]
  have b: "block = pre @ m @ rest" and cs: "cs = [acc]"
    and m: "m = ''Account:'' @ ws @ acc" unfolding acc_def ws_def by blast+
  from cs have g: "group1 (pre, m, rest, cs) = acc" by (simp add: group1_def)
  with len have l5: "length acc = 5" by simp
  have dg: "\<forall>c\<in>set acc. is_digit c" unfolding acc_def by (rule account_digits_digits)
  have ws: "\<forall>c\<in>set ws. is_space c" unfolding ws_def by (auto dest: set_takeWhileD)
  have bl: "block = u @ acc @ rest" unfolding b m u_def by simp
  have une: "u \<noteq> []" unfolding u_def by simp
  from last_marker_prefix [OF ws, of pre]
  have lu: "last u = CHR '':'' \<or> is_space (last u)" unfolding u_def .
  have nwu: "\<not> is_word (last u)"
    using lu space_not_word [of "last u"] colon_not_word by auto
  have nau: "\<not> is_alnum_ascii (last u)" "last u \<noteq> CHR ''-''"
    using lu space_not_alnum [of "last u"] colon_not_alnum by auto
  have p: "\<not> word_opt (last_char None u)"
    using nwu une unfolding last_char_def word_opt_def by simp
  have tw: "takeWhile is_digit (acc @ rest) = acc @ takeWhile is_digit rest"
    using dg by (simp add: takeWhile_append)
  have "\<exists>ys. matches cpt_pattern (last_char None u) (acc @ rest)
          = (acc @ take 3 rest, drop 3 rest, []) # ys"
    unfolding matches_cpt using p nm l5 by (simp add: tw)
  then obtain ys where hit: "matches cpt_pattern (last_char None u) (acc @ rest)
          = (acc @ take 3 rest, drop 3 rest, []) # ys" ..
  have "acc @ take 3 rest \<in> snd ` set (fst (scan cpt_pattern False None (u @ acc @ rest)))"
  proof (rule scan_finds [OF hit])
    fix u1 u2 m' rest' cs'
    assume u: "u = u1 @ u2" and u2: "u2 \<noteq> []"
      and mm: "(m', rest', cs') \<in> set (matches cpt_pattern (last_char None u1) (u2 @ acc @ rest))"
    from u u2 have "last u2 = last u" by simp
    with nau have "\<not> is_alnum_ascii (last u2)" "last u2 \<noteq> CHR ''-''" by simp_all
    with mm u2 show "m' \<noteq> [] \<and> length m' \<le> length u2" by (rule cpt_match_stops_before)
  qed
  then show ?thesis unfolding g findall_def bl by simp
qed

lemma parse_block_Some:
  assumes "re_search account_pattern block = Some f" "extract_cpt_codes block \<noteq> []"
  shows "\<exists>r. parse_block block = Some r \<and> account_number r = group1 f
            \<and> cpt_codes r = extract_cpt_codes block"
proof -
  from assms(1) have "strip block \<noteq> []" by (simp add: account_found_not_blank)
  with assms show ?thesis by (simp add: parse_block_def Let_def)
qed

text \<open>
  C9, as amended. Take a block whose extracted account number has 5 digits and is followed,
  in the block, by a character that is not a word character or by the end of the block.
  If the digits are not followed by a hyphen and 2 alphanumeric characters ending at a
  word boundary, the account number string itself is among the matches of the CPT
  pattern in the block; otherwise the match found there is the account number with that
  modifier. In both cases the CPT codes of the block are not empty, the block gives a
  row carrying that account number, and the code is among the CPT codes of the row.
\<close>

theorem delimited_five_digit_account_is_cpt_code:
  assumes s: "re_search account_pattern block = Some (pre, m, rest, cs)"
      and len: "length (group1 (pre, m, rest, cs)) = 5"
      and nw: "\<not> word_opt (next_char rest)"
  shows "(if modifier_follows rest then group1 (pre, m, rest, cs) @ take 3 rest
          else group1 (pre, m, rest, cs)) \<in> set (findall cpt_pattern block)
     \<and> extract_cpt_codes block \<noteq> []
     \<and> (\<exists>r. parse_block block = Some r \<and> account_number r = group1 (pre, m, rest, cs)
            \<and> (if modifier_follows rest then group1 (pre, m, rest, cs) @ take 3 rest
                else group1 (pre, m, rest, cs)) \<in> set (split_str '', '' (cpt_codes r)))"
proof -
  let ?c = "if modifier_follows rest then group1 (pre, m, rest, cs) @ take 3 rest
            else group1 (pre, m, rest, cs)"
  have c: "?c \<in> set (findall cpt_pattern block)"
  proof (cases "modifier_follows rest")
    case True
    with account_number_with_modifier [OF s len] show ?thesis by simp
  next
    case False
    with account_number_is_cpt_code [OF s len nw] show ?thesis by simp
  qed
  then have f: "findall cpt_pattern block \<noteq> []" by auto
  then have e: "extract_cpt_codes block \<noteq> []" by (simp add: extract_cpt_codes_Nil_iff)
  from parse_block_Some [OF s e] obtain r where r: "parse_block block = Some r"
    "account_number r = group1 (pre, m, rest, cs)" "cpt_codes r = extract_cpt_codes block"
    by blast
  have "split_str '', '' (cpt_codes r) = sorted_list_of_set (set (findall cpt_pattern block))"
    unfolding r(3) using e by (rule split_extract_cpt_codes)
  with c have "?c \<in> set (split_str '', '' (cpt_codes r))" by simp
  with c e r show ?thesis by blast
qed

theorem delimited_five_digit_account_is_cpt_code_witness:
  "re_search account_pattern ''Account: 12345 x'' = Some ([], ''Account: 12345'', '' x'', [''12345''])
   \<and> ''12345'' \<in> set (findall cpt_pattern ''Account: 12345 x'')
   \<and> extract_cpt_codes ''Account: 12345 x'' \<noteq> []
   \<and> (\<exists>r. parse_block ''Account: 12345 x'' = Some r \<and> account_number r = ''12345''
          \<and> ''12345'' \<in> set (split_str '', '' (cpt_codes r)))"
proof -
  have s: "re_search account_pattern ''Account: 12345 x'' = Some ([], ''Account: 12345'', '' x'', [''12345''])"
    by code_simp
  have g: "group1 ([], ''Account: 12345'', '' x'', [''12345'']) = ''12345''"
    by code_simp
  have len: "length (group1 ([], ''Account: 12345'', '' x'', [''12345''])) = 5"
    by code_simp
  have nw: "\<not> word_opt (next_char '' x'')"
    by code_simp
  have nm: "\<not> modifier_follows '' x''"
    by code_simp
  from delimited_five_digit_account_is_cpt_code [OF s len nw] s show ?thesis
    unfolding g using nm by simp
qed

text \<open>
  Without the condition on the following character the claim fails: in
  \<^verbatim>\<open>Account: 123456\<close> the account pattern captures \<^verbatim>\<open>12345\<close>, the sixth digit
  leaves no word boundary after it, so the CPT pattern matches nowhere and the block gives no row.
\<close>

theorem delimited_five_digit_account_is_cpt_code_counterexample:
  "map_option group1 (re_search account_pattern ''Account: 123456'') = Some ''12345''
   \<and> length ''12345'' = 5
   \<and> findall cpt_pattern ''Account: 123456'' = []
   \<and> extract_cpt_codes ''Account: 123456'' = []
   \<and> parse_block ''Account: 123456'' = None
   \<and> blocks_of ''Account: 123456'' = [[], ''Account: 123456'']
   \<and> run ''Account: 123456'' = (Warning_no_data, Some [])"
  by code_simp

end
